theory Spec2Isabelle
  imports Main "HOL-Library.Extended_Nat"
begin

section \<open>JavaScript strings and plain objects\<close>

text \<open>
  Strings are character lists. \<open>split c s\<close> is \<^verbatim>\<open>s.split(c)\<close> for a one-character
  separator: it never returns the empty array (\<^verbatim>\<open>"".split("/")\<close> is \<^verbatim>\<open>[""]\<close>), and a
  leading separator gives a leading empty segment.
\<close>

fun split :: "char \<Rightarrow> string \<Rightarrow> string list" where
  "split c [] = [[]]"
| "split c (x # xs) =
     (if x = c then [] # split c xs
      else (let rest = split c xs in (x # hd rest) # tl rest))"

text \<open>\<^verbatim>\<open>s.startsWith(p)\<close> and \<^verbatim>\<open>s.includes(p)\<close> (substring search).\<close>

definition startsWith :: "string \<Rightarrow> string \<Rightarrow> bool" where
  "startsWith s p = (take (length p) s = p)"

fun includesStr :: "string \<Rightarrow> string \<Rightarrow> bool" where
  "includesStr [] p = (p = [])"
| "includesStr (x # xs) p = (startsWith (x # xs) p \<or> includesStr xs p)"

text \<open>
  The dictionaries of the source are object literals \<^verbatim>\<open>{}\<close>, so a read of a key the
  object does not own falls through to \<^verbatim>\<open>Object.prototype\<close>. These are the names every
  plain object inherits; the inherited values are functions (and, for \<^verbatim>\<open>__proto__\<close>, the
  prototype object itself): truthy, and not numbers.
\<close>

definition objectPrototypeKeys :: "string list" where
  "objectPrototypeKeys =
     [''constructor'', ''__defineGetter__'', ''__defineSetter__'', ''hasOwnProperty'',
      ''__lookupGetter__'', ''__lookupSetter__'', ''isPrototypeOf'',
      ''propertyIsEnumerable'', ''toString'', ''valueOf'', ''__proto__'',
      ''toLocaleString'']"

definition inherited :: "string \<Rightarrow> bool" where
  "inherited k = (k \<in> set objectPrototypeKeys)"

section \<open>findFirstUniqueFolderNames\<close>

text \<open>
  A value stored under a key of \<^verbatim>\<open>mapCount\<close>: a number, \<^verbatim>\<open>NaN\<close>, or something that is
  not a number at all (an inherited function, or the string that \<^verbatim>\<open>+ 1\<close> makes of it).
  \<^verbatim>\<open>undefined\<close> is the absence of a value.
\<close>

datatype jscount = Num nat | NaN | NotNumber

type_synonym mapCount = "string \<Rightarrow> jscount option"

text \<open>\<^verbatim>\<open>mapCount[str]\<close>: the own property, else the inherited one, else \<^verbatim>\<open>undefined\<close>.\<close>

definition readCount :: "mapCount \<Rightarrow> string \<Rightarrow> jscount option" where
  "readCount m k =
     (case m k of Some v \<Rightarrow> Some v
      | None \<Rightarrow> if inherited k then Some NotNumber else None)"

text \<open>
  \<^verbatim>\<open>(mapCount[str] || 0) + 1\<close>: \<^verbatim>\<open>undefined\<close>, \<^verbatim>\<open>0\<close> and \<^verbatim>\<open>NaN\<close> are falsy and give
  \<^verbatim>\<open>1\<close>; a function or a string is truthy and \<^verbatim>\<open>+ 1\<close> concatenates.
\<close>

definition orZeroPlusOne :: "jscount option \<Rightarrow> jscount" where
  "orZeroPlusOne v =
     (case v of None \<Rightarrow> Num 1
      | Some (Num n) \<Rightarrow> Num (n + 1)
      | Some NaN \<Rightarrow> Num 1
      | Some NotNumber \<Rightarrow> NotNumber)"

text \<open>\<^verbatim>\<open>mapCount[folder]++\<close>: a number is incremented, anything else becomes \<^verbatim>\<open>NaN\<close>.\<close>

definition increment :: "jscount option \<Rightarrow> jscount" where
  "increment v = (case v of Some (Num n) \<Rightarrow> Num (n + 1) | _ \<Rightarrow> NaN)"

text \<open>
  \<^verbatim>\<open>mapCount[str] < minCount\<close>, where \<open>minCount\<close> starts at
  \<^verbatim>\<open>Number.POSITIVE_INFINITY\<close>: true only when the left side is a number below it;
  \<^verbatim>\<open>undefined\<close>, \<^verbatim>\<open>NaN\<close> and non-numbers compare false.
\<close>

definition lessCount :: "jscount option \<Rightarrow> enat \<Rightarrow> bool" where
  "lessCount v minCount = (case v of Some (Num n) \<Rightarrow> enat n < minCount | _ \<Rightarrow> False)"

text \<open>\<^verbatim>\<open>p.split('/').reverse().slice(2)\<close>\<close>

definition segmentsOf :: "string \<Rightarrow> string list" where
  "segmentsOf p = drop 2 (rev (split CHR ''/'' p))"

text \<open>
  The first pass: count every non-empty segment of every path. (An assignment to
  \<^verbatim>\<open>__proto__\<close> stores nothing in JavaScript; the key reads as a non-number either way.)
\<close>

definition countSegment :: "mapCount \<Rightarrow> string \<Rightarrow> mapCount" where
  "countSegment m str =
     (if str = [] then m else m(str \<mapsto> orZeroPlusOne (readCount m str)))"

definition countAll :: "string list list \<Rightarrow> mapCount" where
  "countAll segments = fold (\<lambda>segs m. fold (\<lambda>str m'. countSegment m' str) segs m) segments Map.empty"

text \<open>
  The inner loop of the second pass, over the segments of one path, carrying
  \<open>(minCount, folder)\<close>.
\<close>

definition pickStep :: "mapCount \<Rightarrow> string list \<Rightarrow> string \<Rightarrow> enat \<times> string \<Rightarrow> enat \<times> string" where
  "pickStep m folders str acc =
     (if lessCount (readCount m str) (fst acc) \<and> str \<notin> set folders
      then (case readCount m str of Some (Num n) \<Rightarrow> (enat n, str) | _ \<Rightarrow> acc)
      else acc)"

definition pickFolder :: "mapCount \<Rightarrow> string list \<Rightarrow> string list \<Rightarrow> string" where
  "pickFolder m folders segs = snd (fold (pickStep m folders) segs (\<infinity>, []))"

text \<open>The second pass, carrying \<open>(mapCount, folders)\<close>.\<close>

definition chooseStep :: "string list \<Rightarrow> mapCount \<times> string list \<Rightarrow> mapCount \<times> string list" where
  "chooseStep segs st =
     (let m = fst st; folders = snd st;
          folder = pickFolder m folders segs
      in (m(folder \<mapsto> increment (readCount m folder)), folders @ [folder]))"

definition findFirstUniqueFolderNames :: "string list \<Rightarrow> string list" where
  "findFirstUniqueFolderNames paths =
     (let segments = map segmentsOf paths
      in snd (fold chooseStep segments (countAll segments, [])))"

section \<open>Paths\<close>

text \<open>
  \<^verbatim>\<open>basename\<close>, \<^verbatim>\<open>dirname\<close> and \<^verbatim>\<open>normalize\<close> come from the library \<^verbatim>\<open>pathe\<close>. The
  functions below take them as a parameter, so what is proved for every input holds
  whatever the library does on unusual paths.
\<close>

record Pathe =
  basename :: "string \<Rightarrow> string"
  dirname :: "string \<Rightarrow> string"
  normalize' :: "string \<Rightarrow> string"

text \<open>
  The library on normalised POSIX paths (forward slashes, no trailing slash, no \<^verbatim>\<open>.\<close> or
  \<^verbatim>\<open>..\<close> segment), used for the concrete examples: the base name is the last segment,
  the directory name is the rest (\<^verbatim>\<open>/\<close> or \<^verbatim>\<open>.\<close> when nothing is left), and
  normalising changes nothing.
\<close>

fun join :: "string list \<Rightarrow> string" where
  "join [] = []"
| "join [s] = s"
| "join (s # t # ss) = s @ ''/'' @ join (t # ss)"

definition posixBasename :: "string \<Rightarrow> string" where
  "posixBasename p = last (split CHR ''/'' p)"

definition posixDirname :: "string \<Rightarrow> string" where
  "posixDirname p =
     (let d = join (butlast (split CHR ''/'' p))
      in if d \<noteq> [] then d else if startsWith p ''/'' then ''/'' else ''.'')"

definition posix :: Pathe where
  "posix = \<lparr>basename = posixBasename, dirname = posixDirname, normalize' = (\<lambda>p. p)\<rparr>"

section \<open>Project descriptors\<close>

text \<open>
  The interface \<^verbatim>\<open>VitestPackage\<close>. The field \<^verbatim>\<open>id\<close> is \<open>id'\<close> here; the workspace
  folder is kept as its path.
\<close>

record VitestPackage =
  folder :: string
  prefix :: string
  vitestNodePath :: string
  vitestPackageJsonPath :: string
  id' :: string
  cwd :: string
  version :: string
  arguments :: "string option"
  configFile :: "string option"
  workspaceFile :: "string option"
  loader :: "string option"
  pnp :: "string option"

text \<open>What a failing JavaScript operation throws.\<close>

datatype exn = TypeError | Error string

section \<open>resolvePackagUniquePrefixes\<close>

text \<open>
  An object used as a dictionary of arrays (\<^verbatim>\<open>Record<string, string[]>\<close>): its own
  properties, in the order they were created.

  \<^verbatim>\<open>if (!obj[k]) obj[k] = []; obj[k].push(v)\<close>: an own array is appended to; a fresh key
  gets a new array; an inherited name reads as a truthy value that has no \<^verbatim>\<open>push\<close>, and
  the call throws.
\<close>

type_synonym groups = "(string \<times> string list) list"

definition pushTo :: "groups \<Rightarrow> string \<Rightarrow> string \<Rightarrow> exn + groups" where
  "pushTo obj k v =
     (case map_of obj k of
        Some vs \<Rightarrow> Inr (map (\<lambda>(k', vs'). if k' = k then (k', vs' @ [v]) else (k', vs')) obj)
      | None \<Rightarrow> if inherited k then Inl TypeError else Inr (obj @ [(k, [v])]))"

text \<open>
  The order in which \<^verbatim>\<open>for ... in\<close> and \<^verbatim>\<open>Object.entries\<close> visit own properties: keys
  that are array indices (canonical decimal numerals below \<open>2\<^sup>3\<^sup>2 - 1\<close>) first, in
  ascending numeric order, then every other key in creation order.
\<close>

definition digitValue :: "char \<Rightarrow> int" where
  "digitValue c = of_char c - of_char CHR ''0''"

definition isDigit :: "char \<Rightarrow> bool" where
  "isDigit c = (c \<in> set ''0123456789'')"

definition decimalValue :: "string \<Rightarrow> int" where
  "decimalValue s = fold (\<lambda>c n. 10 * n + digitValue c) s 0"

definition isArrayIndex :: "string \<Rightarrow> bool" where
  "isArrayIndex s =
     (s \<noteq> [] \<and> list_all isDigit s \<and> (s = ''0'' \<or> hd s \<noteq> CHR ''0'')
      \<and> length s \<le> 10 \<and> decimalValue s < 4294967295)"

definition ownEntries :: "(string \<times> 'v) list \<Rightarrow> (string \<times> 'v) list" where
  "ownEntries obj =
     sort_key (\<lambda>kv. decimalValue (fst kv)) (filter (\<lambda>kv. isArrayIndex (fst kv)) obj)
     @ filter (\<lambda>kv. \<not> isArrayIndex (fst kv)) obj"

text \<open>
  The first loop. \<open>projects\<close> maps an id to the package object stored under it, here the
  position of that object in \<open>packages\<close>; a later package with the same id replaces an
  earlier one.
\<close>

fun collectPrefixes ::
  "VitestPackage list \<Rightarrow> nat \<Rightarrow> groups \<times> (string \<Rightarrow> nat option)
     \<Rightarrow> exn + groups \<times> (string \<Rightarrow> nat option)" where
  "collectPrefixes [] i st = Inr st"
| "collectPrefixes (pkg # pkgs) i st =
     (case pushTo (fst st) (prefix pkg) (id' pkg) of
        Inl e \<Rightarrow> Inl e
      | Inr prefixes \<Rightarrow> collectPrefixes pkgs (Suc i) (prefixes, (snd st)(id' pkg \<mapsto> i)))"

text \<open>
  The body of the second loop for one group: \<^verbatim>\<open>projects[path].prefix = `${folder}:${config}`\<close>
  for every path of the group, unless the group has a single path. Every path of a group
  was stored in \<open>projects\<close> by the first loop.
\<close>

definition setPrefix ::
  "Pathe \<Rightarrow> (string \<Rightarrow> nat option) \<Rightarrow> string \<times> string \<Rightarrow> VitestPackage list \<Rightarrow> VitestPackage list" where
  "setPrefix P projects pf packages =
     (case projects (fst pf) of
        Some i \<Rightarrow> packages[i := (packages ! i)\<lparr>prefix := snd pf @ '':'' @ basename P (fst pf)\<rparr>]
      | None \<Rightarrow> packages)"

definition renameGroup ::
  "Pathe \<Rightarrow> (string \<Rightarrow> nat option) \<Rightarrow> string list \<Rightarrow> VitestPackage list \<Rightarrow> VitestPackage list" where
  "renameGroup P projects paths packages =
     (if length paths = 1 then packages
      else fold (setPrefix P projects) (zip paths (findFirstUniqueFolderNames paths)) packages)"

definition resolvePackagUniquePrefixes :: "Pathe \<Rightarrow> VitestPackage list \<Rightarrow> exn + VitestPackage list" where
  "resolvePackagUniquePrefixes P packages =
     (case collectPrefixes packages 0 ([], Map.empty) of
        Inl e \<Rightarrow> Inl e
      | Inr st \<Rightarrow>
          Inr (fold (\<lambda>g pkgs. renameGroup P (snd st) (snd g) pkgs) (ownEntries (fst st)) packages))"

text \<open>A descriptor as config-file discovery builds it for a config file, for examples.\<close>

definition configPackage :: "string \<Rightarrow> VitestPackage" where
  "configPackage file =
     \<lparr>folder = ''/'', prefix = posixBasename (posixDirname file) @ '':'' @ posixBasename file,
      vitestNodePath = ''/node_modules/vitest/dist/node.js'',
      vitestPackageJsonPath = ''/node_modules/vitest/package.json'',
      id' = file, cwd = posixDirname file, version = ''1.6.0'',
      arguments = None, configFile = None, workspaceFile = None, loader = None, pnp = None\<rparr>"

text \<open>
  The example of the specification: two config files in sibling folders, first as one
  group under a shared prefix, then as config-file discovery describes them.
\<close>

definition siblingPaths :: "string list" where
  "siblingPaths = [''/a/proj1/vitest.config.ts'', ''/a/proj2/vitest.config.ts'']"

definition siblingGroup :: "VitestPackage list" where
  "siblingGroup = map (\<lambda>p. (configPackage p)\<lparr>prefix := ''vitest.config.ts''\<rparr>) siblingPaths"

text \<open>Disambiguators are pairwise different unless empty.\<close>

definition uniqueNonEmpty :: "string list \<Rightarrow> bool" where
  "uniqueNonEmpty fs = distinct (filter (\<lambda>f. f \<noteq> []) fs)"

section \<open>Config discovery\<close>

text \<open>
  What the discovery functions read from their surroundings: the extension's settings
  (\<^verbatim>\<open>getConfig()\<close>), the results of the three \<^verbatim>\<open>findFiles\<close> searches, the workspace
  folder of a file, the package resolver \<^verbatim>\<open>resolveVitestPackage\<close> (it returns the paths
  of the runner's entry module and manifest and, in plug'n'play mode, the loader and the
  manifest of the package manager), \<^verbatim>\<open>require\<close> of a manifest (its name and version),
  \<^verbatim>\<open>semver.gte\<close>, the constant \<^verbatim>\<open>minimumVersion\<close>, and the entries of the \<^verbatim>\<open>scripts\<close>
  object of a \<^verbatim>\<open>package.json\<close>. A file is its \<^verbatim>\<open>fsPath\<close>. Each of these calls is taken
  to return: one that throws rejects the whole discovery. Notifications, log lines and
  the eviction of a manifest from \<^verbatim>\<open>require.cache\<close> do not influence what is returned
  and are left out; \<open>showWarning\<close> only selects between them.
\<close>

record VitestResolution =
  resolvedNodePath :: string
  resolvedPackageJsonPath :: string
  resolvedPnp :: "(string \<times> string) option"

record PackageJson =
  pkgName :: string
  pkgVersion :: string

datatype json = JString string | JOther

record Env =
  workspaceConfig :: "string option"
  rootConfig :: "string option"
  workspaceFiles :: "string list"
  configFiles :: "string list"
  packageJsonFiles :: "string list"
  getWorkspaceFolder :: "string \<Rightarrow> string"
  resolveVitestPackage :: "string \<Rightarrow> string \<Rightarrow> VitestResolution option"
  require :: "string \<Rightarrow> PackageJson"
  gte :: "string \<Rightarrow> string \<Rightarrow> bool"
  minimumVersion :: string
  scriptsOf :: "string \<Rightarrow> (string \<times> json) list"
  pathe :: Pathe

text \<open>A setting is used when it is truthy: set, and not the empty string.\<close>

definition truthy :: "string option \<Rightarrow> bool" where
  "truthy s = (s \<noteq> None \<and> s \<noteq> Some [])"

definition validateVitestPkg :: "Env \<Rightarrow> bool \<Rightarrow> string \<Rightarrow> PackageJson \<Rightarrow> bool" where
  "validateVitestPkg env showWarning pkgJsonPath pkg =
     (if pkgName pkg \<noteq> ''vitest'' then False
      else if \<not> gte env (pkgVersion pkg) (minimumVersion env) then False
      else True)"

definition resolveVitestConfig :: "Env \<Rightarrow> bool \<Rightarrow> string \<Rightarrow> VitestPackage option" where
  "resolveVitestConfig env showWarning configOrWorkspaceFile =
     (let folder' = getWorkspaceFolder env configOrWorkspaceFile;
          cwd' = dirname (pathe env) configOrWorkspaceFile
      in case resolveVitestPackage env (dirname (pathe env) configOrWorkspaceFile) folder' of
           None \<Rightarrow> None
         | Some vitest \<Rightarrow>
             (let ident = normalize' (pathe env) configOrWorkspaceFile;
                  prefix' = basename (pathe env) (dirname (pathe env) ident) @ '':''
                            @ basename (pathe env) ident
              in case resolvedPnp vitest of
                   Some (loaderPath, pnpPath) \<Rightarrow>
                     Some \<lparr>folder = folder', prefix = prefix',
                           vitestNodePath = resolvedNodePath vitest,
                           vitestPackageJsonPath = resolvedPackageJsonPath vitest,
                           id' = ident, cwd = cwd', version = ''pnp'',
                           arguments = None, configFile = None, workspaceFile = None,
                           loader = Some loaderPath, pnp = Some pnpPath\<rparr>
                 | None \<Rightarrow>
                     (let pkg = require env (resolvedPackageJsonPath vitest)
                      in if \<not> validateVitestPkg env showWarning (resolvedPackageJsonPath vitest) pkg
                         then None
                         else Some \<lparr>folder = folder', prefix = prefix',
                                    vitestNodePath = resolvedNodePath vitest,
                                    vitestPackageJsonPath = resolvedPackageJsonPath vitest,
                                    id' = ident, cwd = cwd', version = pkgVersion pkg,
                                    arguments = None, configFile = None, workspaceFile = None,
                                    loader = None, pnp = None\<rparr>)))"

text \<open>The result of a discovery strategy.\<close>

record Discovery =
  meta :: "VitestPackage list"
  warned :: bool

text \<open>
  The workspace branch: every workspace file is resolved; a failure sets \<open>warned\<close>, a
  success is tagged with the root config and its own id as workspace file.
\<close>

definition resolveWorkspaces :: "Env \<Rightarrow> bool \<Rightarrow> string list \<Rightarrow> exn + Discovery" where
  "resolveWorkspaces env showWarning vitestWorkspaces =
     (let resolved = map (resolveVitestConfig env showWarning) vitestWorkspaces;
          tagged = map (map_option (\<lambda>vitest. vitest\<lparr>configFile := rootConfig env,
                                                      workspaceFile := Some (id' vitest)\<rparr>)) resolved
      in case resolvePackagUniquePrefixes (pathe env) (map the (filter (\<lambda>v. v \<noteq> None) tagged)) of
           Inl e \<Rightarrow> Inl e
         | Inr m \<Rightarrow> Inr \<lparr>meta = m, warned = list_ex (\<lambda>v. v = None) resolved\<rparr>)"

text \<open>\<^verbatim>\<open>configs.reduce(...)\<close>: the config files grouped by their directory.\<close>

fun configsByFolder :: "Pathe \<Rightarrow> string list \<Rightarrow> groups \<Rightarrow> exn + groups" where
  "configsByFolder P [] acc = Inr acc"
| "configsByFolder P (config # configs) acc =
     (case pushTo acc (dirname P config) config of
        Inl e \<Rightarrow> Inl e
      | Inr acc' \<Rightarrow> configsByFolder P configs acc')"

text \<open>The override rule of one folder, and the resolution of the files that remain.\<close>

definition isViteConfig :: "Pathe \<Rightarrow> string \<Rightarrow> bool" where
  "isViteConfig P file = includesStr (basename P file) ''vite.''"

definition isVitestConfig :: "Pathe \<Rightarrow> string \<Rightarrow> bool" where
  "isVitestConfig P file = includesStr (basename P file) ''vitest.''"

definition hasViteAndVitestConfig :: "Pathe \<Rightarrow> string list \<Rightarrow> bool" where
  "hasViteAndVitestConfig P files = (list_ex (isViteConfig P) files \<and> list_ex (isVitestConfig P) files)"

definition filteredConfigFiles :: "Pathe \<Rightarrow> string list \<Rightarrow> string list" where
  "filteredConfigFiles P files =
     (if hasViteAndVitestConfig P files then filter (\<lambda>file. \<not> isViteConfig P file) files else files)"

definition resolveOne :: "Env \<Rightarrow> bool \<Rightarrow> string \<Rightarrow> Discovery \<Rightarrow> Discovery" where
  "resolveOne env showWarning config acc =
     (case resolveVitestConfig env showWarning config of
        Some vitest \<Rightarrow> acc\<lparr>meta := meta acc @ [vitest]\<rparr>
      | None \<Rightarrow> acc\<lparr>warned := True\<rparr>)"

definition resolveFolder :: "Env \<Rightarrow> bool \<Rightarrow> string list \<Rightarrow> Discovery \<Rightarrow> Discovery" where
  "resolveFolder env showWarning files acc =
     fold (resolveOne env showWarning) (filteredConfigFiles (pathe env) files) acc"

definition resolveVitestPackagesViaConfigs :: "Env \<Rightarrow> bool \<Rightarrow> exn + Discovery" where
  "resolveVitestPackagesViaConfigs env showWarning =
     (let vitestWorkspaces =
            (if truthy (workspaceConfig env) then [the (workspaceConfig env)] else workspaceFiles env)
      in if vitestWorkspaces \<noteq> [] then resolveWorkspaces env showWarning vitestWorkspaces
         else
           (let configs = (if truthy (rootConfig env) then [the (rootConfig env)] else configFiles env)
            in case configsByFolder (pathe env) configs [] of
                 Inl e \<Rightarrow> Inl e
               | Inr byFolder \<Rightarrow>
                   (let resolved = fold (\<lambda>entry acc. resolveFolder env showWarning (snd entry) acc)
                                     (ownEntries byFolder) \<lparr>meta = [], warned = False\<rparr>
                    in case resolvePackagUniquePrefixes (pathe env) (meta resolved) of
                         Inl e \<Rightarrow> Inl e
                       | Inr m \<Rightarrow> Inr \<lparr>meta = m, warned = warned resolved\<rparr>)))"

section \<open>Manifest-script discovery\<close>

text \<open>The loop over the script entries of one manifest.\<close>

definition pushScript ::
  "Env \<Rightarrow> string \<Rightarrow> string \<Rightarrow> string \<Rightarrow> VitestResolution \<Rightarrow> PackageJson
     \<Rightarrow> string \<times> json \<Rightarrow> VitestPackage list \<Rightarrow> VitestPackage list" where
  "pushScript env pkgPath folder' cwd' vitest pkg entry acc =
     (case snd entry of
        JOther \<Rightarrow> acc
      | JString script \<Rightarrow>
          if \<not> startsWith script ''vitest '' then acc
          else acc @ [\<lparr>folder = folder', prefix = ''package.json:'' @ fst entry,
                       vitestNodePath = resolvedNodePath vitest,
                       vitestPackageJsonPath = resolvedPackageJsonPath vitest,
                       id' = normalize' (pathe env) pkgPath @ ''/'' @ fst entry,
                       cwd = cwd', version = pkgVersion pkg,
                       arguments = Some script, configFile = None, workspaceFile = None,
                       loader = None, pnp = None\<rparr>])"

text \<open>
  The callback run for one manifest. The callbacks of \<^verbatim>\<open>Promise.all\<close> suspend only while
  the manifest is read, so each runs to its end without interleaving;
  \<open>packageJsonFiles\<close> lists the manifests in the order their reads complete.
\<close>

definition resolveManifest :: "Env \<Rightarrow> bool \<Rightarrow> string \<Rightarrow> Discovery \<Rightarrow> Discovery" where
  "resolveManifest env showWarning pkgPath acc =
     (let scripts = scriptsOf env pkgPath;
          folder' = getWorkspaceFolder env pkgPath;
          cwd' = dirname (pathe env) pkgPath
      in case resolveVitestPackage env cwd' folder' of
           None \<Rightarrow> acc
         | Some vitest \<Rightarrow>
             (let pkg = require env (resolvedPackageJsonPath vitest)
              in if \<not> validateVitestPkg env showWarning (resolvedPackageJsonPath vitest) pkg
                 then acc\<lparr>warned := True\<rparr>
                 else acc\<lparr>meta := fold (pushScript env pkgPath folder' cwd' vitest pkg) scripts (meta acc)\<rparr>))"

definition resolveVitestPackagesViaPackageJson :: "Env \<Rightarrow> bool \<Rightarrow> exn + Discovery" where
  "resolveVitestPackagesViaPackageJson env showWarning =
     (let found = fold (resolveManifest env showWarning) (packageJsonFiles env)
                    \<lparr>meta = [], warned = False\<rparr>
      in case resolvePackagUniquePrefixes (pathe env) (meta found) of
           Inl e \<Rightarrow> Inl e
         | Inr m \<Rightarrow> Inr \<lparr>meta = m, warned = warned found\<rparr>)"

section \<open>resolveVitestPackages\<close>

text \<open>
  The top-level operation returns the project list; the first component records which
  strategies it ran, in order.
\<close>

datatype strategy = ViaConfigs | ViaPackageJson

definition resolveVitestPackages :: "Env \<Rightarrow> bool \<Rightarrow> strategy list \<times> (exn + VitestPackage list)" where
  "resolveVitestPackages env showWarning =
     (case resolveVitestPackagesViaConfigs env showWarning of
        Inl e \<Rightarrow> ([ViaConfigs], Inl e)
      | Inr vitest \<Rightarrow>
          if meta vitest = [] \<and> \<not> warned vitest
          then ([ViaConfigs, ViaPackageJson],
                case resolveVitestPackagesViaPackageJson env showWarning of
                  Inl e \<Rightarrow> Inl e
                | Inr pkg \<Rightarrow> Inr (meta pkg))
          else ([ViaConfigs], Inr (meta vitest)))"

section \<open>Example workspaces\<close>

text \<open>
  A workspace \<^verbatim>\<open>/ws\<close> with Vitest 1.6.0 installed, three config files in its root and a
  manifest with five scripts; the variants below drop the config files, or have no
  resolvable Vitest next to the config files.
\<close>

definition installedVitest :: VitestResolution where
  "installedVitest =
     \<lparr>resolvedNodePath = ''/ws/node_modules/vitest/dist/node.js'',
      resolvedPackageJsonPath = ''/ws/node_modules/vitest/package.json'',
      resolvedPnp = None\<rparr>"

definition exampleScripts :: "(string \<times> json) list" where
  "exampleScripts =
     [(''test'', JString ''vitest run''), (''custom'', JString ''vitest-custom run''),
      (''pretest'', JString ''vitest run''), (''bare'', JString ''vitest''),
      (''build'', JOther)]"

definition exampleFiles :: "string list" where
  "exampleFiles = [''/ws/vite.config.ts'', ''/ws/vitest.config.ts'', ''/ws/vite-lib.config.ts'']"

definition exampleEnv :: Env where
  "exampleEnv =
     \<lparr>workspaceConfig = None, rootConfig = None, workspaceFiles = [],
      configFiles = exampleFiles,
      packageJsonFiles = [''/ws/package.json''],
      getWorkspaceFolder = (\<lambda>file. ''/ws''),
      resolveVitestPackage = (\<lambda>dir folder. Some installedVitest),
      require = (\<lambda>path. \<lparr>pkgName = ''vitest'', pkgVersion = ''1.6.0''\<rparr>),
      gte = (\<lambda>v m. True), minimumVersion = ''1.4.0'',
      scriptsOf = (\<lambda>path. exampleScripts),
      pathe = posix\<rparr>"

definition scriptsOnlyEnv :: Env where
  "scriptsOnlyEnv = exampleEnv\<lparr>configFiles := []\<rparr>"

definition notInstalledEnv :: Env where
  "notInstalledEnv =
     exampleEnv\<lparr>configFiles := [''/ws/app/vitest.config.ts''],
                resolveVitestPackage :=
                  (\<lambda>dir folder. if dir = ''/ws/app'' then None else Some installedVitest)\<rparr>"

section \<open>The worker\<close>

text \<open>
  A value sent to the parent process, as far as the replies need it: a string,
  \<^verbatim>\<open>undefined\<close>, an array, or any other value, kept as what \<^verbatim>\<open>String\<close> makes of it.

  Anything can be thrown. What matters here is what \<^verbatim>\<open>err.stack\<close> gives: for an
  \<^verbatim>\<open>Error\<close> a string; for a value without that property \<^verbatim>\<open>undefined\<close>; for a value
  that has something else there, that value; and for \<^verbatim>\<open>null\<close> and \<^verbatim>\<open>undefined\<close> (or a
  throwing getter) the read itself throws, a \<^verbatim>\<open>TypeError\<close> in the first two cases.
\<close>

datatype jsvalue = JStr string | JUndefined | JAny string | JArr "jsvalue list"

datatype thrown = Thrown string | NoStack | OddStack string | Unreadable thrown

text \<open>\<^verbatim>\<open>err.stack\<close>: the value read, or what the read throws.\<close>

fun readStack :: "thrown \<Rightarrow> thrown + jsvalue" where
  "readStack (Thrown s) = Inr (JStr s)"
| "readStack NoStack = Inr JUndefined"
| "readStack (OddStack s) = Inr (JAny s)"
| "readStack (Unreadable e) = Inl e"

datatype reply = Reply (replyType: string) (errors: jsvalue)

text \<open>
  What the worker calls: \<^verbatim>\<open>register\<close> of \<^verbatim>\<open>node:module\<close> and \<^verbatim>\<open>process.chdir\<close> (each
  returns what it throws, if anything), \<^verbatim>\<open>initVitest\<close> (given the working directory of
  the process at the call and the descriptor, it returns the context or throws), and the
  wiring after the loop, which builds \<^verbatim>\<open>vitestById\<close>, creates the RPC and hands it to
  the reporters. \<^verbatim>\<open>process.send\<close> appends to the outbox.
\<close>

record 'ctx Runtime =
  register :: "string \<Rightarrow> thrown option"
  chdir :: "string \<Rightarrow> thrown option"
  initVitest :: "string \<Rightarrow> VitestPackage \<Rightarrow> thrown + 'ctx"
  wireRpc :: "(VitestPackage \<times> 'ctx) list \<Rightarrow> thrown option"
  workerPathe :: Pathe

text \<open>
  The process: the directory it started in (\<^verbatim>\<open>const cwd = process.cwd()\<close>), its
  working directory now, whether the \<open>init\<close> listener is still registered, what it has
  sent, and a log of the \<^verbatim>\<open>initVitest\<close> calls, each with the id of its descriptor and
  the working directory at the call.
\<close>

record Process =
  startCwd :: string
  workingDir :: string
  listening :: bool
  outbox :: "reply list"
  constructions :: "(string \<times> string) list"

text \<open>The state of the loop over \<^verbatim>\<open>data.meta\<close>: the process, and the arrays \<^verbatim>\<open>vitest\<close>
  (here \<open>instances\<close>) and \<^verbatim>\<open>errors\<close> (here \<open>failures\<close>).\<close>

record 'ctx InitLoop =
  process :: Process
  instances :: "(VitestPackage \<times> 'ctx) list"
  failures :: "(string \<times> jsvalue) list"

text \<open>
  One turn of the loop. A throw of \<^verbatim>\<open>process.chdir\<close> leaves the loop, and is returned
  with the state it left behind; a throw of \<^verbatim>\<open>initVitest\<close> is caught and recorded with
  its \<^verbatim>\<open>stack\<close>, unless reading the stack throws: that throw leaves the loop too.
  Ids are absolute paths, so the directory entered is the one \<^verbatim>\<open>dirname\<close> names.
\<close>

definition initProject ::
  "'ctx Runtime \<Rightarrow> VitestPackage \<Rightarrow> 'ctx InitLoop \<Rightarrow> thrown \<times> 'ctx InitLoop + 'ctx InitLoop" where
  "initProject rt m st =
     (let dir = dirname (workerPathe rt) (id' m)
      in case chdir rt dir of
           Some err \<Rightarrow> Inl (err, st)
         | None \<Rightarrow>
             (let p = (process st)\<lparr>workingDir := dir,
                        constructions := constructions (process st) @ [(id' m, dir)]\<rparr>
              in case initVitest rt dir m of
                   Inr v \<Rightarrow> Inr (st\<lparr>process := p, instances := instances st @ [(m, v)]\<rparr>)
                 | Inl err \<Rightarrow>
                     (case readStack err of
                        Inl err' \<Rightarrow> Inl (err', st\<lparr>process := p\<rparr>)
                      | Inr stack \<Rightarrow>
                          Inr (st\<lparr>process := p, failures := failures st @ [(id' m, stack)]\<rparr>))))"

fun initLoop ::
  "'ctx Runtime \<Rightarrow> VitestPackage list \<Rightarrow> 'ctx InitLoop \<Rightarrow> thrown \<times> 'ctx InitLoop + 'ctx InitLoop" where
  "initLoop rt [] st = Inr st"
| "initLoop rt (m # ms) st =
     (case initProject rt m st of
        Inl e \<Rightarrow> Inl e
      | Inr st' \<Rightarrow> initLoop rt ms st')"

definition send :: "reply \<Rightarrow> Process \<Rightarrow> Process" where
  "send r p = p\<lparr>outbox := outbox p @ [r]\<rparr>"

text \<open>\<^verbatim>\<open>errors\<close> as the loop collects it: an array of \<^verbatim>\<open>[id, stack]\<close> pairs.\<close>

definition errorPairs :: "(string \<times> jsvalue) list \<Rightarrow> jsvalue" where
  "errorPairs es = JArr (map (\<lambda>e. JArr [JStr (fst e), snd e]) es)"

text \<open>
  The function \<^verbatim>\<open>error\<close> of the worker, with \<^verbatim>\<open>String(err.stack)\<close>. When the read of the
  stack throws, \<^verbatim>\<open>error\<close> throws before it sends, and nothing catches that.
\<close>

fun stackString :: "thrown \<Rightarrow> thrown + string" where
  "stackString (Thrown s) = Inr s"
| "stackString NoStack = Inr ''undefined''"
| "stackString (OddStack s) = Inr s"
| "stackString (Unreadable e) = Inl e"

definition error :: "thrown \<Rightarrow> Process \<Rightarrow> Process" where
  "error err p =
     (case stackString err of
        Inl err' \<Rightarrow> p
      | Inr s \<Rightarrow> send (Reply ''error'' (JArr [JStr [], JStr s])) p)"

text \<open>The body of the \<^verbatim>\<open>try\<close> block: what it throws with the state left behind, or the state.\<close>

definition initBody ::
  "'ctx Runtime \<Rightarrow> VitestPackage list \<Rightarrow> string option \<Rightarrow> Process
     \<Rightarrow> thrown \<times> 'ctx InitLoop + 'ctx InitLoop" where
  "initBody rt metas loader' p =
     (case (if truthy loader' then register rt (the loader') else None) of
        Some err \<Rightarrow> Inl (err, \<lparr>process = p, instances = [], failures = []\<rparr>)
      | None \<Rightarrow>
          (case initLoop rt metas \<lparr>process = p, instances = [], failures = []\<rparr> of
             Inl e \<Rightarrow> Inl e
           | Inr st \<Rightarrow>
               (case chdir rt (startCwd p) of
                  Some err \<Rightarrow> Inl (err, st)
                | None \<Rightarrow>
                    (let st' = st\<lparr>process := (process st)\<lparr>workingDir := startCwd p\<rparr>\<rparr>
                     in if instances st' = []
                        then Inr (st'\<lparr>process := send (Reply ''error'' (errorPairs (failures st'))) (process st')\<rparr>)
                        else (case wireRpc rt (instances st') of
                                Some err \<Rightarrow> Inl (err, st')
                              | None \<Rightarrow>
                                  Inr (st'\<lparr>process :=
                                    send (Reply ''ready'' (errorPairs (failures st'))) (process st')\<rparr>))))))"

text \<open>
  The listener \<open>init\<close>. A message is an \<^verbatim>\<open>init\<close> message with its descriptors and
  optional loader, or something else. The listener removes itself on the first \<^verbatim>\<open>init\<close>
  message.
\<close>

datatype message = Init "VitestPackage list" "string option" | OtherMessage

definition init :: "'ctx Runtime \<Rightarrow> message \<Rightarrow> Process \<Rightarrow> Process" where
  "init rt msg p =
     (case msg of
        OtherMessage \<Rightarrow> p
      | Init metas loader' \<Rightarrow>
          if \<not> listening p then p
          else (case initBody rt metas loader' (p\<lparr>listening := False\<rparr>) of
                  Inl (err, st) \<Rightarrow> error err (process st)
                | Inr st \<Rightarrow> process st))"

text \<open>A freshly started worker in \<^verbatim>\<open>/home\<close>, and example runtimes and descriptors.\<close>

definition startedIn :: "string \<Rightarrow> Process" where
  "startedIn dir = \<lparr>startCwd = dir, workingDir = dir, listening = True, outbox = [], constructions = []\<rparr>"

definition projectA :: VitestPackage where
  "projectA = configPackage ''/ws/a/vitest.config.ts''"

definition projectB :: VitestPackage where
  "projectB = configPackage ''/ws/b/vitest.config.ts''"

definition projectC :: VitestPackage where
  "projectC = configPackage ''/ws/c/vitest.config.ts''"

text \<open>Every directory exists; construction throws for the ids listed.\<close>

definition failingFor :: "string list \<Rightarrow> nat Runtime" where
  "failingFor ids =
     \<lparr>register = (\<lambda>l. None), chdir = (\<lambda>d. None),
      initVitest = (\<lambda>d m. if id' m \<in> set ids then Inl (Thrown (''Error: cannot start '' @ id' m))
                           else Inr (length (id' m))),
      wireRpc = (\<lambda>v. None), workerPathe = posix\<rparr>"

text \<open>The directory \<^verbatim>\<open>/ws/b\<close> cannot be entered; every construction succeeds.\<close>

definition missingDirB :: "nat Runtime" where
  "missingDirB =
     (failingFor [])\<lparr>chdir := (\<lambda>d. if d = ''/ws/b'' then Some (Thrown ''Error: ENOENT: no such file or directory, chdir /ws/b'') else None)\<rparr>"

text \<open>Registering the loader throws.\<close>

definition brokenLoader :: "nat Runtime" where
  "brokenLoader = (failingFor [])\<lparr>register := (\<lambda>l. Some (Thrown ''Error: Cannot find module''))\<rparr>"

text \<open>Whether a value is an array of two-element arrays.\<close>

definition isPairList :: "jsvalue \<Rightarrow> bool" where
  "isPairList v =
     (case v of JArr xs \<Rightarrow> list_all (\<lambda>x. case x of JArr ys \<Rightarrow> length ys = 2 | _ \<Rightarrow> False) xs
      | _ \<Rightarrow> False)"

text \<open>
  For stating what the loop does: the contexts that construct and the failures of the
  others, each in the order of the descriptors, when every descriptor's directory can be
  entered; and the state a run of the loop ends in, thrown or not.
\<close>

definition constructedOf :: "'ctx Runtime \<Rightarrow> VitestPackage list \<Rightarrow> (VitestPackage \<times> 'ctx) list" where
  "constructedOf rt metas =
     concat (map (\<lambda>m. case initVitest rt (dirname (workerPathe rt) (id' m)) m of
                         Inr v \<Rightarrow> [(m, v)] | Inl err \<Rightarrow> []) metas)"

definition failuresOf :: "'ctx Runtime \<Rightarrow> VitestPackage list \<Rightarrow> (string \<times> jsvalue) list" where
  "failuresOf rt metas =
     concat (map (\<lambda>m. case initVitest rt (dirname (workerPathe rt) (id' m)) m of
                         Inr v \<Rightarrow> []
                       | Inl err \<Rightarrow> (case readStack err of Inr stack \<Rightarrow> [(id' m, stack)] | Inl err' \<Rightarrow> []))
               metas)"

text \<open>Whether the stack of what a construction throws can be read.\<close>

definition readable :: "thrown + 'ctx \<Rightarrow> bool" where
  "readable r = (case r of Inl (Unreadable e) \<Rightarrow> False | _ \<Rightarrow> True)"

text \<open>
  Construction rejects with \<^verbatim>\<open>null\<close> for \<^verbatim>\<open>/ws/b/vitest.config.ts\<close>, and succeeds
  otherwise.
\<close>

definition rejectsNullB :: "nat Runtime" where
  "rejectsNullB =
     (failingFor [])\<lparr>initVitest :=
        (\<lambda>d m. if id' m = ''/ws/b/vitest.config.ts''
               then Inl (Unreadable (Thrown ''TypeError: Cannot read properties of null''))
               else Inr (length (id' m)))\<rparr>"

definition endState :: "thrown \<times> 'ctx InitLoop + 'ctx InitLoop \<Rightarrow> 'ctx InitLoop" where
  "endState r = (case r of Inl e \<Rightarrow> snd e | Inr st \<Rightarrow> st)"

section \<open>The worker's methods\<close>

text \<open>
  \<^verbatim>\<open>createWorkerMethods\<close>. A context (the class \<^verbatim>\<open>Vitest\<close>) is the members it has, by name,
  own or inherited, each a function from the arguments to what it returns or throws,
  or something that is not a function, whose call throws. \<^verbatim>\<open>vitestById\<close> is a
  plain object: a read of an id it does not own falls through to what every plain object
  inherits under that name, \<open>proto\<close>, whose values are seen as contexts too.
\<close>

datatype ('a, 'r) member = Method "'a list \<Rightarrow> exn + 'r" | NotFunction

type_synonym ('a, 'r) members = "string \<Rightarrow> ('a, 'r) member option"

datatype 'r outcome = Closed "string list" | Returned 'r

text \<open>
  \<^verbatim>\<open>close\<close> disposes every context the object owns, in \<^verbatim>\<open>for ... in\<close> order, and ignores
  what a disposal throws; the result lists the ids visited.
\<close>

definition close :: "(string \<times> ('a, 'r) members) list \<Rightarrow> exn + 'r outcome" where
  "close vitestById = Inr (Closed (map fst (ownEntries vitestById)))"

definition callMethod ::
  "(string \<Rightarrow> ('a, 'r) members option) \<Rightarrow> (string \<times> ('a, 'r) members) list
     \<Rightarrow> string \<Rightarrow> string \<Rightarrow> 'a list \<Rightarrow> exn + 'r outcome" where
  "callMethod proto vitestById prop ident args =
     (case (case map_of vitestById ident of Some v \<Rightarrow> Some v | None \<Rightarrow> proto ident) of
        None \<Rightarrow> Inl (Error (''Vitest instance not found with id: '' @ ident))
      | Some vitest \<Rightarrow>
          (case vitest prop of
             Some (Method method) \<Rightarrow> map_sum (\<lambda>e. e) Returned (method args)
           | Some NotFunction \<Rightarrow> Inl TypeError
           | None \<Rightarrow> Inl (Error (''Method not found: '' @ prop))))"

text \<open>A call \<^verbatim>\<open>pool[prop](id, ...args)\<close> through the proxy.\<close>

definition createWorkerMethods ::
  "(string \<Rightarrow> ('a, 'r) members option) \<Rightarrow> (string \<times> ('a, 'r) members) list
     \<Rightarrow> string \<Rightarrow> string \<Rightarrow> 'a list \<Rightarrow> exn + 'r outcome" where
  "createWorkerMethods proto vitestById prop ident args =
     (if prop = ''close'' then close vitestById
      else callMethod proto vitestById prop ident args)"

text \<open>
  An example: one context with a method \<^verbatim>\<open>collectTests\<close> and a field \<^verbatim>\<open>id\<close>; and a
  prototype under which
  \<^verbatim>\<open>constructor\<close> is the function \<^verbatim>\<open>Object\<close>, of whose members \<^verbatim>\<open>keys\<close> is listed.
\<close>

definition exampleContext :: "(string, string) members" where
  "exampleContext = [''collectTests'' \<mapsto> Method (\<lambda>args. Inr (concat args)), ''id'' \<mapsto> NotFunction]"

definition examplePool :: "(string \<times> (string, string) members) list" where
  "examplePool = [(''/ws/vitest.config.ts'', exampleContext)]"

definition exampleProto :: "string \<Rightarrow> (string, string) members option" where
  "exampleProto name =
     (if name = ''constructor'' then Some [''keys'' \<mapsto> Method (\<lambda>args. Inr ''[]'')] else None)"

section \<open>Notions for the properties of the prefix assigner\<close>

text \<open>
  The array stored under a key of a dictionary of arrays, empty when there is none; the
  ids of the packages carrying a prefix, in order; and four config files in folders
  named \<^verbatim>\<open>react\<close>, as config-file discovery describes them.
\<close>

definition groupOf :: "groups \<Rightarrow> string \<Rightarrow> string list" where
  "groupOf obj k = (case map_of obj k of None \<Rightarrow> [] | Some vs \<Rightarrow> vs)"

definition idsWithPrefix :: "string \<Rightarrow> VitestPackage list \<Rightarrow> string list" where
  "idsWithPrefix p packages = map id' (filter (\<lambda>x. prefix x = p) packages)"

definition reactPaths :: "string list" where
  "reactPaths =
     [''/c/a/react/vitest.config.ts'', ''/c/b/react/vitest.config.ts'',
      ''/a/react/vitest.config.ts'', ''/b/react/vitest.config.ts'']"

definition reactProjects :: "VitestPackage list" where
  "reactProjects = map configPackage reactPaths"

text \<open>
  Two id paths differ in a remaining ancestor segment: one has a segment, after the
  reversal and the drop of two, that the other has not.
\<close>

definition segmentsDiffer :: "string \<Rightarrow> string \<Rightarrow> bool" where
  "segmentsDiffer p q =
     (list_ex (\<lambda>s. s \<notin> set (segmentsOf q)) (segmentsOf p) \<or>
      list_ex (\<lambda>s. s \<notin> set (segmentsOf p)) (segmentsOf q))"

text \<open>Two config files in folders named \<^verbatim>\<open>react\<close>, and one in a folder named \<^verbatim>\<open>y\<close>.\<close>

definition mixedProjects :: "VitestPackage list" where
  "mixedProjects =
     map configPackage
       [''/x/y/react/vitest.config.ts'', ''/x/z/react/vitest.config.ts'', ''/q/y/vitest.config.ts'']"

text \<open>
  A private segment of a path among the paths of its group: a remaining segment of the
  path that is not empty, not a name every object inherits, and not a remaining segment
  of any other path of the group.
\<close>

definition privateSegment :: "string \<Rightarrow> string \<Rightarrow> string list \<Rightarrow> bool" where
  "privateSegment s p paths =
     (s \<in> set (segmentsOf p) \<and> s \<noteq> [] \<and> \<not> inherited s \<and>
      list_all (\<lambda>q. q = p \<or> s \<notin> set (segmentsOf q)) paths)"

section \<open>Notions for the properties of discovery\<close>

text \<open>
  Config files in two directories: \<^verbatim>\<open>/ws/a\<close> holds a Vite config and two Vitest configs,
  \<^verbatim>\<open>/ws/b\<close> a Vite config alone.
\<close>

definition twoFolderFiles :: "string list" where
  "twoFolderFiles =
     [''/ws/a/vite.config.ts'', ''/ws/b/vite.config.ts'',
      ''/ws/a/vitest.config.ts'', ''/ws/a/vitest.e2e.config.ts'']"

definition twoFolderEnv :: Env where
  "twoFolderEnv = exampleEnv\<lparr>configFiles := twoFolderFiles\<rparr>"




section \<open>Properties of findFirstUniqueFolderNames\<close>

lemma pickStep_inv:
  assumes "snd acc = [] \<or> (snd acc \<notin> set folders \<and> snd acc \<in> S)"
  shows "snd (pickStep m folders str acc) = [] \<or>
         (snd (pickStep m folders str acc) \<notin> set folders \<and> snd (pickStep m folders str acc) \<in> insert str S)"
  using assms by (auto simp: pickStep_def split: option.splits jscount.splits)

lemma pickFold_inv:
  assumes "snd acc = [] \<or> (snd acc \<notin> set folders \<and> snd acc \<in> S)"
  shows "snd (fold (pickStep m folders) segs acc) = [] \<or>
         (snd (fold (pickStep m folders) segs acc) \<notin> set folders \<and>
          snd (fold (pickStep m folders) segs acc) \<in> S \<union> set segs)"
  using assms
proof (induction segs arbitrary: acc S)
  case Nil
  then show ?case by simp
next
  case (Cons str segs)
  from pickStep_inv [OF Cons.prems, of m str]
  have "snd (pickStep m folders str acc) = [] \<or>
        (snd (pickStep m folders str acc) \<notin> set folders \<and> snd (pickStep m folders str acc) \<in> insert str S)" .
  from Cons.IH [OF this] show ?case by auto
qed

lemma pickFolder_cases:
  "pickFolder m folders segs = [] \<or>
   (pickFolder m folders segs \<notin> set folders \<and> pickFolder m folders segs \<in> set segs)"
  using pickFold_inv [of "(\<infinity>, [])" folders "{}" m segs] by (simp add: pickFolder_def)

lemma uniqueNonEmpty_snoc:
  "uniqueNonEmpty fs \<Longrightarrow> f = [] \<or> f \<notin> set fs \<Longrightarrow> uniqueNonEmpty (fs @ [f])"
  by (auto simp: uniqueNonEmpty_def)

lemma distinct_filter_nth:
  "distinct (filter P xs) \<Longrightarrow> i < j \<Longrightarrow> j < length xs \<Longrightarrow> P (xs ! i) \<Longrightarrow> P (xs ! j) \<Longrightarrow> xs ! i \<noteq> xs ! j"
proof (induction xs arbitrary: i j)
  case Nil
  then show ?case by simp
next
  case (Cons x xs)
  show ?case
  proof (cases i)
    case 0
    with Cons.prems obtain j' where j': "j = Suc j'" "j' < length xs" by (cases j) auto
    with Cons.prems have "xs ! j' \<in> set (filter P xs)" by simp
    moreover from 0 Cons.prems have "x \<notin> set (filter P xs)" by simp
    ultimately show ?thesis using 0 j' by auto
  next
    case (Suc i')
    with Cons.prems obtain j' where j': "j = Suc j'" by (cases j) auto
    from Cons.prems have "distinct (filter P xs)" by (simp split: if_splits)
    from Cons.IH [OF this, of i' j'] Cons.prems Suc j' show ?thesis by simp
  qed
qed

lemma fold_chooseStep:
  "\<exists>new. snd (fold chooseStep segs (m, fs)) = fs @ new \<and>
     list_all2 (\<lambda>f s. f = [] \<or> f \<in> set s) new segs \<and>
     (uniqueNonEmpty fs \<longrightarrow> uniqueNonEmpty (fs @ new))"
proof (induction segs arbitrary: m fs)
  case Nil
  then show ?case by simp
next
  case (Cons s segs)
  define f where "f = pickFolder m fs s"
  define m' where "m' = m(f \<mapsto> increment (readCount m f))"
  have step: "chooseStep s (m, fs) = (m', fs @ [f])"
    by (simp add: chooseStep_def f_def m'_def Let_def)
  from Cons.IH [of m' "fs @ [f]"] obtain new where
    new: "snd (fold chooseStep segs (m', fs @ [f])) = (fs @ [f]) @ new"
      "list_all2 (\<lambda>f s. f = [] \<or> f \<in> set s) new segs"
      "uniqueNonEmpty (fs @ [f]) \<longrightarrow> uniqueNonEmpty ((fs @ [f]) @ new)"
    by blast
  have cases: "f = [] \<or> (f \<notin> set fs \<and> f \<in> set s)"
    unfolding f_def by (rule pickFolder_cases)
  have "snd (fold chooseStep (s # segs) (m, fs)) = fs @ (f # new)"
    using step new(1) by simp
  moreover have "list_all2 (\<lambda>f s. f = [] \<or> f \<in> set s) (f # new) (s # segs)"
    using cases new(2) by auto
  moreover have "uniqueNonEmpty fs \<longrightarrow> uniqueNonEmpty (fs @ (f # new))"
    using cases new(3) uniqueNonEmpty_snoc [of fs f] by auto
  ultimately show ?case by blast
qed

lemma findFirst_char:
  "length (findFirstUniqueFolderNames paths) = length paths \<and>
   list_all2 (\<lambda>f p. f = [] \<or> f \<in> set (segmentsOf p)) (findFirstUniqueFolderNames paths) paths \<and>
   uniqueNonEmpty (findFirstUniqueFolderNames paths)"
proof -
  obtain new where new:
    "snd (fold chooseStep (map segmentsOf paths) (countAll (map segmentsOf paths), [])) = [] @ new"
    "list_all2 (\<lambda>f s. f = [] \<or> f \<in> set s) new (map segmentsOf paths)"
    "uniqueNonEmpty [] \<longrightarrow> uniqueNonEmpty ([] @ new)"
    using fold_chooseStep [of "map segmentsOf paths" "countAll (map segmentsOf paths)" "[]"] by blast
  have eq: "findFirstUniqueFolderNames paths = new"
    using new(1) by (simp add: findFirstUniqueFolderNames_def Let_def)
  have "length new = length paths" using new(2) by (auto dest: list_all2_lengthD)
  moreover have "list_all2 (\<lambda>f p. f = [] \<or> f \<in> set (segmentsOf p)) new paths"
    using new(2) by (simp add: list_all2_map2)
  moreover have "uniqueNonEmpty new" using new(3) by (simp add: uniqueNonEmpty_def)
  ultimately show ?thesis using eq by simp
qed

text \<open>
  Claim C10. For every list of id paths, \<open>findFirstUniqueFolderNames\<close> returns a list of
  the same length, whose entry at each position is the empty string or one of the
  remaining segments of the path at that position, and two entries at different
  positions that are both non-empty are different: only the empty string can repeat.
\<close>

theorem findFirstUniqueFolderNames_one_per_path:
  "length (findFirstUniqueFolderNames paths) = length paths \<and>
   (\<forall>i. i < length paths \<longrightarrow>
      findFirstUniqueFolderNames paths ! i = [] \<or>
      findFirstUniqueFolderNames paths ! i \<in> set (segmentsOf (paths ! i))) \<and>
   (\<forall>i j. i < j \<and> j < length paths \<and>
      findFirstUniqueFolderNames paths ! i \<noteq> [] \<and> findFirstUniqueFolderNames paths ! j \<noteq> [] \<longrightarrow>
      findFirstUniqueFolderNames paths ! i \<noteq> findFirstUniqueFolderNames paths ! j)"
proof -
  let ?r = "findFirstUniqueFolderNames paths"
  from findFirst_char [of paths] have len: "length ?r = length paths"
    and all2: "list_all2 (\<lambda>f p. f = [] \<or> f \<in> set (segmentsOf p)) ?r paths"
    and uniq: "distinct (filter (\<lambda>f. f \<noteq> []) ?r)"
    by (simp_all add: uniqueNonEmpty_def)
  have "\<forall>i. i < length paths \<longrightarrow> ?r ! i = [] \<or> ?r ! i \<in> set (segmentsOf (paths ! i))"
    using all2 len by (auto dest: list_all2_nthD)
  moreover have "\<forall>i j. i < j \<and> j < length paths \<and> ?r ! i \<noteq> [] \<and> ?r ! j \<noteq> [] \<longrightarrow> ?r ! i \<noteq> ?r ! j"
    using distinct_filter_nth [OF uniq] len by auto
  ultimately show ?thesis using len by blast
qed

theorem findFirstUniqueFolderNames_one_per_path_witness:
  "length (findFirstUniqueFolderNames
      [''/w/packages/pkg1/react/vitest.config.ts'', ''/w/packages/pkg2/react/vitest.config.ts'']) = 2 \<and>
   findFirstUniqueFolderNames
      [''/w/packages/pkg1/react/vitest.config.ts'', ''/w/packages/pkg2/react/vitest.config.ts''] ! 0 \<noteq>
   findFirstUniqueFolderNames
      [''/w/packages/pkg1/react/vitest.config.ts'', ''/w/packages/pkg2/react/vitest.config.ts''] ! 1"
proof -
  let ?ps = "[''/w/packages/pkg1/react/vitest.config.ts'', ''/w/packages/pkg2/react/vitest.config.ts'']"
  have eq: "findFirstUniqueFolderNames ?ps = [''pkg1'', ''pkg2'']"
    by code_simp
  have hyp: "(0::nat) < 1 \<and> 1 < length ?ps \<and>
      findFirstUniqueFolderNames ?ps ! 0 \<noteq> [] \<and> findFirstUniqueFolderNames ?ps ! 1 \<noteq> []"
    by (simp add: eq)
  from findFirstUniqueFolderNames_one_per_path [of ?ps]
  have len: "length (findFirstUniqueFolderNames ?ps) = length ?ps"
    and diff: "\<forall>i j. i < j \<and> j < length ?ps \<and>
      findFirstUniqueFolderNames ?ps ! i \<noteq> [] \<and> findFirstUniqueFolderNames ?ps ! j \<noteq> [] \<longrightarrow>
      findFirstUniqueFolderNames ?ps ! i \<noteq> findFirstUniqueFolderNames ?ps ! j"
    by blast+
  from diff hyp have "findFirstUniqueFolderNames ?ps ! 0 \<noteq> findFirstUniqueFolderNames ?ps ! 1"
    by blast
  with len show ?thesis by simp
qed

text \<open>
  Claim C3, as amended. On the id paths \<^verbatim>\<open>/a/proj1/vitest.config.ts\<close> and
  \<^verbatim>\<open>/a/proj2/vitest.config.ts\<close> the file name and the immediate parent folder of each
  path are dropped before a disambiguator is chosen, so \<open>findFirstUniqueFolderNames\<close>
  returns \<^verbatim>\<open>["a", ""]\<close>, and a group of two projects with these ids receives the prefixes
  \<^verbatim>\<open>a:vitest.config.ts\<close> and \<^verbatim>\<open>:vitest.config.ts\<close>. As config-file discovery describes
  the two files, their initial prefixes \<^verbatim>\<open>proj1:vitest.config.ts\<close> and
  \<^verbatim>\<open>proj2:vitest.config.ts\<close> already differ, and the assigner leaves them as they are.
\<close>

theorem sibling_projects_prefixes:
  "findFirstUniqueFolderNames siblingPaths = [''a'', []] \<and>
   map_sum (\<lambda>e. e) (map prefix) (resolvePackagUniquePrefixes posix siblingGroup) =
     Inr [''a:vitest.config.ts'', '':vitest.config.ts''] \<and>
   map prefix (map configPackage siblingPaths) = [''proj1:vitest.config.ts'', ''proj2:vitest.config.ts''] \<and>
   resolvePackagUniquePrefixes posix (map configPackage siblingPaths) = Inr (map configPackage siblingPaths)"
  by code_simp

text \<open>
  Claim C3, as stated, fails: the two paths do not get their immediate parent folders
  \<^verbatim>\<open>proj1\<close> and \<^verbatim>\<open>proj2\<close> as disambiguators.
\<close>

theorem sibling_projects_counterexample:
  "findFirstUniqueFolderNames [''/a/proj1/vitest.config.ts'', ''/a/proj2/vitest.config.ts'']
     \<noteq> [''proj1'', ''proj2'']"
  by code_simp

subsection \<open>A private segment gives a disambiguator\<close>

lemma readCount_upd: "k \<noteq> k' \<Longrightarrow> readCount (m(k' \<mapsto> v)) k = readCount m k"
  by (simp add: readCount_def)

text \<open>The first pass leaves the empty key alone, and makes a number of every segment counted.\<close>

lemma countSegment_empty: "countSegment m str [] = m []"
  by (simp add: countSegment_def)

lemma fold_countSegment_empty: "fold (\<lambda>str m'. countSegment m' str) segs m [] = m []"
  by (induction segs arbitrary: m) (simp_all add: countSegment_empty)

lemma countAll_fold_empty:
  "fold (\<lambda>segs m. fold (\<lambda>str m'. countSegment m' str) segs m) segments m [] = m []"
  by (induction segments arbitrary: m) (simp_all add: fold_countSegment_empty)

lemma countSegment_number:
  assumes "\<not> inherited s" and "s \<noteq> []" and "m s = None \<or> (\<exists>n. m s = Some (Num n))"
  shows "(countSegment m str s = None \<or> (\<exists>n. countSegment m str s = Some (Num n))) \<and>
         (str = s \<or> (\<exists>n. m s = Some (Num n)) \<longrightarrow> (\<exists>n. countSegment m str s = Some (Num n)))"
  using assms
  by (auto simp: countSegment_def readCount_def orZeroPlusOne_def split: option.splits jscount.splits)

lemma fold_countSegment_number:
  assumes "\<not> inherited s" and "s \<noteq> []" and "m s = None \<or> (\<exists>n. m s = Some (Num n))"
  shows "(fold (\<lambda>str m'. countSegment m' str) segs m s = None \<or>
          (\<exists>n. fold (\<lambda>str m'. countSegment m' str) segs m s = Some (Num n))) \<and>
         (s \<in> set segs \<or> (\<exists>n. m s = Some (Num n)) \<longrightarrow>
          (\<exists>n. fold (\<lambda>str m'. countSegment m' str) segs m s = Some (Num n)))"
  using assms(3)
proof (induction segs arbitrary: m)
  case Nil
  then show ?case by simp
next
  case (Cons str segs)
  have "(countSegment m str s = None \<or> (\<exists>n. countSegment m str s = Some (Num n))) \<and>
         (str = s \<or> (\<exists>n. m s = Some (Num n)) \<longrightarrow> (\<exists>n. countSegment m str s = Some (Num n)))"
    using assms(1,2) Cons.prems by (rule countSegment_number)
  then have a: "countSegment m str s = None \<or> (\<exists>n. countSegment m str s = Some (Num n))"
    and b: "str = s \<or> (\<exists>n. m s = Some (Num n)) \<longrightarrow> (\<exists>n. countSegment m str s = Some (Num n))"
    by blast+
  from Cons.IH [of "countSegment m str"] a b show ?case by auto
qed

lemma countAll_fold_number:
  assumes "\<not> inherited s" and "s \<noteq> []" and "m s = None \<or> (\<exists>n. m s = Some (Num n))"
  shows "(fold (\<lambda>segs m. fold (\<lambda>str m'. countSegment m' str) segs m) segments m s = None \<or>
          (\<exists>n. fold (\<lambda>segs m. fold (\<lambda>str m'. countSegment m' str) segs m) segments m s = Some (Num n))) \<and>
         (s \<in> \<Union> (set ` set segments) \<or> (\<exists>n. m s = Some (Num n)) \<longrightarrow>
          (\<exists>n. fold (\<lambda>segs m. fold (\<lambda>str m'. countSegment m' str) segs m) segments m s = Some (Num n)))"
  using assms(3)
proof (induction segments arbitrary: m)
  case Nil
  then show ?case by simp
next
  case (Cons segs segments)
  have "(fold (\<lambda>str m'. countSegment m' str) segs m s = None \<or>
          (\<exists>n. fold (\<lambda>str m'. countSegment m' str) segs m s = Some (Num n))) \<and>
         (s \<in> set segs \<or> (\<exists>n. m s = Some (Num n)) \<longrightarrow>
          (\<exists>n. fold (\<lambda>str m'. countSegment m' str) segs m s = Some (Num n)))"
    using assms(1,2) Cons.prems by (rule fold_countSegment_number)
  then have a: "fold (\<lambda>str m'. countSegment m' str) segs m s = None \<or>
          (\<exists>n. fold (\<lambda>str m'. countSegment m' str) segs m s = Some (Num n))"
    and b: "s \<in> set segs \<or> (\<exists>n. m s = Some (Num n)) \<longrightarrow>
          (\<exists>n. fold (\<lambda>str m'. countSegment m' str) segs m s = Some (Num n))"
    by blast+
  from Cons.IH [of "fold (\<lambda>str m'. countSegment m' str) segs m"] a b show ?case by auto
qed

lemma countAll_counted:
  assumes "\<not> inherited s" and "s \<noteq> []" and "i < length segments" and "s \<in> set (segments ! i)"
  shows "\<exists>n. readCount (countAll segments) s = Some (Num n)"
proof -
  have "s \<in> \<Union> (set ` set segments)" using assms(3,4) by (metis UN_I nth_mem)
  moreover have "Map.empty s = None \<or> (\<exists>n. Map.empty s = Some (Num n))" by simp
  with assms(1,2)
  have "s \<in> \<Union> (set ` set segments) \<or> (\<exists>n. Map.empty s = Some (Num n)) \<longrightarrow>
          (\<exists>n. fold (\<lambda>segs m. fold (\<lambda>str m'. countSegment m' str) segs m) segments Map.empty s = Some (Num n))"
    by (rule countAll_fold_number [THEN conjunct2])
  ultimately obtain n where "countAll segments s = Some (Num n)" by (auto simp: countAll_def)
  then show ?thesis by (simp add: readCount_def)
qed

lemma countAll_empty: "\<forall>n. readCount (countAll segments) [] \<noteq> Some (Num n)"
  using countAll_fold_empty [of segments Map.empty]
  by (simp add: countAll_def readCount_def inherited_def objectPrototypeKeys_def)

text \<open>The inner loop of the second pass picks a non-empty folder once it meets a counted, unused segment.\<close>

lemma pickStep_nonempty:
  assumes "\<forall>n. readCount m [] \<noteq> Some (Num n)"
    and "fst acc \<noteq> \<infinity> \<longrightarrow> snd acc \<noteq> []"
  shows "fst (pickStep m folders str acc) \<noteq> \<infinity> \<longrightarrow> snd (pickStep m folders str acc) \<noteq> []"
  using assms
  by (auto simp: pickStep_def lessCount_def split: option.splits jscount.splits)

lemma pickStep_chosen:
  assumes "readCount m s = Some (Num n)" and "s \<notin> set folders"
  shows "fst (pickStep m folders s acc) \<noteq> \<infinity>"
  using assms by (cases "fst acc") (auto simp: pickStep_def lessCount_def)

lemma pickStep_keeps:
  "fst acc \<noteq> \<infinity> \<Longrightarrow> fst (pickStep m folders str acc) \<noteq> \<infinity>"
  by (auto simp: pickStep_def lessCount_def split: option.splits jscount.splits)

lemma fold_pickStep_nonempty:
  assumes "\<forall>n. readCount m [] \<noteq> Some (Num n)"
    and "fst acc \<noteq> \<infinity> \<longrightarrow> snd acc \<noteq> []"
    and "readCount m s = Some (Num n)" and "s \<notin> set folders"
    and "s \<in> set segs \<or> fst acc \<noteq> \<infinity>"
  shows "snd (fold (pickStep m folders) segs acc) \<noteq> [] \<and> fst (fold (pickStep m folders) segs acc) \<noteq> \<infinity>"
  using assms(2,5)
proof (induction segs arbitrary: acc)
  case Nil
  then show ?case by simp
next
  case (Cons str segs)
  have inv: "fst (pickStep m folders str acc) \<noteq> \<infinity> \<longrightarrow> snd (pickStep m folders str acc) \<noteq> []"
    using assms(1) Cons.prems(1) by (rule pickStep_nonempty)
  have next': "s \<in> set segs \<or> fst (pickStep m folders str acc) \<noteq> \<infinity>"
  proof (cases "str = s")
    case True
    then show ?thesis using pickStep_chosen [OF assms(3,4)] by simp
  next
    case False
    from Cons.prems(2) False have "s \<in> set segs \<or> fst acc \<noteq> \<infinity>" by auto
    then show ?thesis
    proof
      assume "s \<in> set segs" then show ?thesis ..
    next
      assume "fst acc \<noteq> \<infinity>"
      then have "fst (pickStep m folders str acc) \<noteq> \<infinity>" by (rule pickStep_keeps)
      then show ?thesis ..
    qed
  qed
  from Cons.IH [OF inv next'] show ?case by simp
qed

lemma pickFolder_nonempty:
  assumes "\<forall>n. readCount m [] \<noteq> Some (Num n)"
    and "readCount m s = Some (Num n)" and "s \<notin> set folders" and "s \<in> set segs"
  shows "pickFolder m folders segs \<noteq> []"
proof -
  have "fst (\<infinity>, []) \<noteq> (\<infinity> :: enat) \<longrightarrow> snd (\<infinity> :: enat, [] :: string) \<noteq> []" by simp
  from fold_pickStep_nonempty [OF assms(1) this assms(2,3)] assms(4)
  show ?thesis by (simp add: pickFolder_def)
qed

text \<open>The second pass keeps the empty key from being a number, and a number a number.\<close>

lemma chooseStep_fst:
  "fst (chooseStep segs (m, fs)) =
     m(pickFolder m fs segs \<mapsto> increment (readCount m (pickFolder m fs segs)))"
  by (simp add: chooseStep_def Let_def)

lemma chooseStep_snd: "snd (chooseStep segs (m, fs)) = fs @ [pickFolder m fs segs]"
  by (simp add: chooseStep_def Let_def)

lemma fold_chooseStep_private:
  assumes "s \<noteq> []"
    and "\<forall>n. readCount m [] \<noteq> Some (Num n)"
    and "\<exists>n. readCount m s = Some (Num n)"
    and "i < length segs" and "s \<in> set (segs ! i)"
    and "\<forall>j < length segs. j \<noteq> i \<longrightarrow> s \<notin> set (segs ! j)"
    and "s \<notin> set fs"
  shows "snd (fold chooseStep segs (m, fs)) ! (length fs + i) \<noteq> []"
  using assms(2-7)
proof (induction segs arbitrary: m fs i)
  case Nil
  then show ?case by simp
next
  case (Cons x rest)
  let ?f = "pickFolder m fs x"
  let ?m' = "m(?f \<mapsto> increment (readCount m ?f))"
  have step: "chooseStep x (m, fs) = (?m', fs @ [?f])"
    by (simp add: chooseStep_def Let_def)
  from fold_chooseStep [of rest ?m' "fs @ [?f]"] obtain new where
    new: "snd (fold chooseStep rest (?m', fs @ [?f])) = (fs @ [?f]) @ new"
    by blast
  show ?case
  proof (cases i)
    case 0
    with Cons.prems obtain n where "readCount m s = Some (Num n)" "s \<in> set x" by auto
    with Cons.prems(1,6) have "?f \<noteq> []" by (intro pickFolder_nonempty [where s = s and n = n]) simp_all
    moreover have "snd (fold chooseStep (x # rest) (m, fs)) ! (length fs + 0) = ?f"
      using step new by (simp add: nth_append)
    ultimately show ?thesis using 0 by simp
  next
    case (Suc i')
    have notx: "s \<notin> set x" using Cons.prems(5) Suc by (auto dest: spec [of _ 0])
    have cases: "?f = [] \<or> (?f \<notin> set fs \<and> ?f \<in> set x)" by (rule pickFolder_cases)
    with notx assms(1) have fs: "?f \<noteq> s" by auto
    have a: "\<forall>n. readCount ?m' [] \<noteq> Some (Num n)"
    proof (cases "?f = []")
      case True
      then show ?thesis using Cons.prems(1)
        by (auto simp: readCount_def increment_def split: option.splits jscount.splits)
    next
      case False
      then show ?thesis using Cons.prems(1) by (simp add: readCount_def)
    qed
    have b: "\<exists>n. readCount ?m' s = Some (Num n)"
      using Cons.prems(2) fs by (simp add: readCount_def)
    have c: "i' < length rest" using Cons.prems(3) Suc by simp
    have d: "s \<in> set (rest ! i')" using Cons.prems(4) Suc by simp
    have e: "\<forall>j < length rest. j \<noteq> i' \<longrightarrow> s \<notin> set (rest ! j)"
    proof (intro allI impI)
      fix j assume "j < length rest" "j \<noteq> i'"
      with Cons.prems(5) Suc have "s \<notin> set ((x # rest) ! Suc j)" by (auto dest: spec [of _ "Suc j"])
      then show "s \<notin> set (rest ! j)" by simp
    qed
    have f: "s \<notin> set (fs @ [?f])" using Cons.prems(6) fs by simp
    have r: "snd (fold chooseStep rest (?m', fs @ [?f])) ! (length (fs @ [?f]) + i') \<noteq> []"
      using a b c d e f by (rule Cons.IH)
    have eq: "fold chooseStep (x # rest) (m, fs) = fold chooseStep rest (?m', fs @ [?f])"
      using step by simp
    have idx: "length fs + i = length (fs @ [?f]) + i'" using Suc by simp
    show ?thesis unfolding eq idx by (rule r)
  qed
qed

lemma private_segment_folder:
  assumes "distinct paths" and "pos < length paths" and "privateSegment s (paths ! pos) paths"
  shows "findFirstUniqueFolderNames paths ! pos \<noteq> []"
proof -
  let ?segs = "map segmentsOf paths"
  from assms(3) have s: "s \<in> set (segmentsOf (paths ! pos))" "s \<noteq> []" "\<not> inherited s"
    and others: "\<forall>q \<in> set paths. q = paths ! pos \<or> s \<notin> set (segmentsOf q)"
    by (simp_all add: privateSegment_def list_all_iff)
  have i: "pos < length ?segs" using assms(2) by simp
  have mem: "s \<in> set (?segs ! pos)" using s(1) assms(2) by simp
  have priv: "\<forall>j < length ?segs. j \<noteq> pos \<longrightarrow> s \<notin> set (?segs ! j)"
  proof (intro allI impI)
    fix j assume j: "j < length ?segs" "j \<noteq> pos"
    then have "paths ! j \<noteq> paths ! pos"
      using assms(1,2) by (simp add: nth_eq_iff_index_eq)
    moreover have "paths ! j \<in> set paths" using j by simp
    ultimately have "s \<notin> set (segmentsOf (paths ! j))" using others by blast
    then show "s \<notin> set (?segs ! j)" using j by simp
  qed
  have counted: "\<exists>n. readCount (countAll ?segs) s = Some (Num n)"
    using s(3,2) i mem by (rule countAll_counted)
  have "snd (fold chooseStep ?segs (countAll ?segs, [])) ! (length ([] :: string list) + pos) \<noteq> []"
    using s(2) countAll_empty counted i mem priv by (rule fold_chooseStep_private) simp
  then show ?thesis by (simp add: findFirstUniqueFolderNames_def Let_def)
qed

section \<open>Properties of the prefix assigner\<close>

subsection \<open>The first loop\<close>

lemma map_of_map_append:
  "map_of (map (\<lambda>(k', vs'). if k' = k then (k', vs' @ [v]) else (k', vs')) obj) k' =
     (if k' = k then map_option (\<lambda>vs. vs @ [v]) (map_of obj k) else map_of obj k')"
  by (induction obj) auto

lemma map_fst_map_append:
  "map fst (map (\<lambda>(k', vs'). if k' = k then (k', vs' @ [v]) else (k', vs')) obj) = map fst obj"
  by (induction obj) auto

lemma pushTo_ok:
  assumes "distinct (map fst obj)" and "\<not> inherited k"
  shows "\<exists>obj'. pushTo obj k v = Inr obj' \<and> distinct (map fst obj') \<and>
     (\<forall>k'. groupOf obj' k' = (if k' = k then groupOf obj k @ [v] else groupOf obj k'))"
proof (cases "map_of obj k")
  case None
  then have notin: "k \<notin> set (map fst obj)" by (simp add: map_of_eq_None_iff)
  have "pushTo obj k v = Inr (obj @ [(k, [v])])"
    using None assms(2) by (simp add: pushTo_def)
  moreover have "distinct (map fst (obj @ [(k, [v])]))" using assms(1) notin by simp
  moreover have "\<forall>k'. groupOf (obj @ [(k, [v])]) k' = (if k' = k then groupOf obj k @ [v] else groupOf obj k')"
    using None by (auto simp: groupOf_def map_add_def split: option.splits)
  ultimately show ?thesis by blast
next
  case (Some vs)
  let ?obj' = "map (\<lambda>(k', vs'). if k' = k then (k', vs' @ [v]) else (k', vs')) obj"
  have "pushTo obj k v = Inr ?obj'" using Some by (simp add: pushTo_def)
  moreover have "distinct (map fst ?obj')" using assms(1) by (simp only: map_fst_map_append)
  moreover have "\<forall>k'. groupOf ?obj' k' = (if k' = k then groupOf obj k @ [v] else groupOf obj k')"
    using Some by (simp add: groupOf_def map_of_map_append)
  ultimately show ?thesis by blast
qed

lemma collectPrefixes_ok:
  assumes "distinct (map fst obj)" and "\<forall>p \<in> set pkgs. \<not> inherited (prefix p)"
  shows "\<exists>obj' pr'. collectPrefixes pkgs i (obj, pr) = Inr (obj', pr') \<and>
     distinct (map fst obj') \<and>
     (\<forall>k. groupOf obj' k = groupOf obj k @ idsWithPrefix k pkgs) \<and>
     (\<forall>x. x \<notin> set (map id' pkgs) \<longrightarrow> pr' x = pr x) \<and>
     (distinct (map id' pkgs) \<longrightarrow> (\<forall>n < length pkgs. pr' (id' (pkgs ! n)) = Some (i + n)))"
  using assms
proof (induction pkgs arbitrary: i obj pr)
  case Nil
  then show ?case by (simp add: idsWithPrefix_def)
next
  case (Cons a rest)
  from Cons.prems have ni: "\<not> inherited (prefix a)" by simp
  from pushTo_ok [OF Cons.prems(1) ni, of "id' a"] obtain obj1 where obj1:
    "pushTo obj (prefix a) (id' a) = Inr obj1" "distinct (map fst obj1)"
    "\<forall>k'. groupOf obj1 k' = (if k' = prefix a then groupOf obj (prefix a) @ [id' a] else groupOf obj k')"
    by blast
  let ?pr1 = "pr(id' a \<mapsto> i)"
  from Cons.prems have rest: "\<forall>p \<in> set rest. \<not> inherited (prefix p)" by simp
  from Cons.IH [OF obj1(2) rest, of "Suc i" ?pr1] obtain obj' pr' where res:
    "collectPrefixes rest (Suc i) (obj1, ?pr1) = Inr (obj', pr')"
    "distinct (map fst obj')"
    "\<forall>k. groupOf obj' k = groupOf obj1 k @ idsWithPrefix k rest"
    "\<forall>x. x \<notin> set (map id' rest) \<longrightarrow> pr' x = ?pr1 x"
    "distinct (map id' rest) \<longrightarrow> (\<forall>n < length rest. pr' (id' (rest ! n)) = Some (Suc i + n))"
    by blast
  have run: "collectPrefixes (a # rest) i (obj, pr) = Inr (obj', pr')"
    using obj1(1) res(1) by simp
  have grp: "\<forall>k. groupOf obj' k = groupOf obj k @ idsWithPrefix k (a # rest)"
    using res(3) obj1(3) by (simp add: idsWithPrefix_def)
  have frame: "\<forall>x. x \<notin> set (map id' (a # rest)) \<longrightarrow> pr' x = pr x"
    using res(4) by auto
  have pos: "distinct (map id' (a # rest)) \<longrightarrow>
      (\<forall>n < length (a # rest). pr' (id' ((a # rest) ! n)) = Some (i + n))"
  proof (intro impI allI)
    fix n
    assume d: "distinct (map id' (a # rest))" and n: "n < length (a # rest)"
    show "pr' (id' ((a # rest) ! n)) = Some (i + n)"
    proof (cases n)
      case 0
      from d have "id' a \<notin> set (map id' rest)" by simp
      with res(4) have "pr' (id' a) = ?pr1 (id' a)" by blast
      with 0 show ?thesis by simp
    next
      case (Suc n')
      with n d res(5) have "pr' (id' (rest ! n')) = Some (Suc i + n')" by simp
      with Suc show ?thesis by simp
    qed
  qed
  from run res(2) grp frame pos show ?case by blast
qed

subsection \<open>The second loop\<close>

lemma setPrefix_length: "length (setPrefix P pr z pkgs) = length pkgs"
  by (simp add: setPrefix_def split: option.splits)

lemma fold_setPrefix_length: "length (fold (setPrefix P pr) zs pkgs) = length pkgs"
  by (induction zs arbitrary: pkgs) (simp_all add: setPrefix_length)

lemma setPrefix_ids: "map id' (setPrefix P pr z pkgs) = map id' pkgs"
proof (cases "pr (fst z)")
  case None
  then show ?thesis by (simp add: setPrefix_def)
next
  case (Some a)
  have "(map id' pkgs)[a := id' (pkgs ! a)] = map id' pkgs"
    by (cases "a < length pkgs") (simp_all add: list_update_same_conv list_update_beyond)
  with Some show ?thesis by (simp add: setPrefix_def map_update)
qed

lemma fold_setPrefix_ids: "map id' (fold (setPrefix P pr) zs pkgs) = map id' pkgs"
  by (induction zs arbitrary: pkgs) (simp_all add: setPrefix_ids)

lemma setPrefix_other:
  "pr (fst z) \<noteq> Some k \<Longrightarrow> setPrefix P pr z pkgs ! k = pkgs ! k"
  by (cases "pr (fst z)") (simp_all add: setPrefix_def)

lemma fold_setPrefix_other:
  "\<forall>z \<in> set zs. pr (fst z) \<noteq> Some k \<Longrightarrow> fold (setPrefix P pr) zs pkgs ! k = pkgs ! k"
  by (induction zs arbitrary: pkgs) (simp_all add: setPrefix_other)

lemma setPrefix_at:
  "pr (fst z) = Some k \<Longrightarrow> k < length pkgs \<Longrightarrow>
     prefix (setPrefix P pr z pkgs ! k) = snd z @ '':'' @ basename P (fst z)"
  by (simp add: setPrefix_def)

lemma fold_setPrefix_at:
  assumes "pr (fst z) = Some k" and "k < length pkgs"
    and "\<forall>z' \<in> set zs2. pr (fst z') \<noteq> Some k"
  shows "prefix (fold (setPrefix P pr) (zs1 @ z # zs2) pkgs ! k) = snd z @ '':'' @ basename P (fst z)"
proof -
  let ?mid = "fold (setPrefix P pr) zs1 pkgs"
  have len: "k < length ?mid" using assms(2) by (simp add: fold_setPrefix_length)
  have "fold (setPrefix P pr) (zs1 @ z # zs2) pkgs = fold (setPrefix P pr) zs2 (setPrefix P pr z ?mid)"
    by simp
  then have "fold (setPrefix P pr) (zs1 @ z # zs2) pkgs ! k = setPrefix P pr z ?mid ! k"
    using fold_setPrefix_other [OF assms(3)] by simp
  moreover have "prefix (setPrefix P pr z ?mid ! k) = snd z @ '':'' @ basename P (fst z)"
    using assms(1) len by (rule setPrefix_at)
  ultimately show ?thesis by simp
qed

lemma renameGroup_length: "length (renameGroup P pr paths pkgs) = length pkgs"
  by (simp add: renameGroup_def fold_setPrefix_length)

lemma renameGroup_other:
  assumes "\<forall>x. pr x = Some k \<longrightarrow> x = idk" and "idk \<notin> set paths"
  shows "renameGroup P pr paths pkgs ! k = pkgs ! k"
proof -
  have "\<forall>z \<in> set (zip paths (findFirstUniqueFolderNames paths)). pr (fst z) \<noteq> Some k"
    using assms by (auto dest: set_zip_leftD)
  then show ?thesis by (simp add: renameGroup_def fold_setPrefix_other)
qed

lemma renameGroup_at:
  assumes inj: "\<forall>x. pr x = Some k \<longrightarrow> x = idk" and prk: "pr idk = Some k"
    and k: "k < length pkgs" and d: "distinct paths"
    and pos: "pos < length paths" "paths ! pos = idk" and many: "length paths \<noteq> 1"
  shows "prefix (renameGroup P pr paths pkgs ! k) =
           findFirstUniqueFolderNames paths ! pos @ '':'' @ basename P idk"
proof -
  let ?fs = "findFirstUniqueFolderNames paths"
  let ?zs = "zip paths ?fs"
  have len: "length ?fs = length paths" using findFirst_char [of paths] by simp
  then have zlen: "pos < length ?zs" using pos(1) by simp
  have z: "?zs ! pos = (idk, ?fs ! pos)" using pos len by simp
  have split: "?zs = take pos ?zs @ ?zs ! pos # drop (Suc pos) ?zs"
    using zlen by (rule id_take_nth_drop)
  have after: "\<forall>z' \<in> set (drop (Suc pos) ?zs). pr (fst z') \<noteq> Some k"
  proof
    fix z' assume "z' \<in> set (drop (Suc pos) ?zs)"
    then obtain q where q: "q < length (drop (Suc pos) ?zs)" "z' = drop (Suc pos) ?zs ! q"
      by (auto simp: in_set_conv_nth)
    then have q': "Suc pos + q < length paths" using len by simp
    with q len have "fst z' = paths ! (Suc pos + q)" by simp
    moreover have "paths ! (Suc pos + q) \<noteq> paths ! pos"
      using d q' pos(1) by (simp add: nth_eq_iff_index_eq)
    ultimately show "pr (fst z') \<noteq> Some k" using inj pos(2) by auto
  qed
  have at: "pr (fst (?zs ! pos)) = Some k" using z prk by simp
  have "prefix (fold (setPrefix P pr) (take pos ?zs @ ?zs ! pos # drop (Suc pos) ?zs) pkgs ! k) =
      snd (?zs ! pos) @ '':'' @ basename P (fst (?zs ! pos))"
    using at k after by (rule fold_setPrefix_at)
  with split
  have "prefix (fold (setPrefix P pr) ?zs pkgs ! k) = snd (?zs ! pos) @ '':'' @ basename P (fst (?zs ! pos))"
    by simp
  with z many show ?thesis by (simp add: renameGroup_def)
qed

lemma fold_renameGroup_length:
  "length (fold (\<lambda>g pkgs. renameGroup P pr (snd g) pkgs) gs pkgs) = length pkgs"
  by (induction gs arbitrary: pkgs) (simp_all add: renameGroup_length)

lemma fold_renameGroup_ids:
  "map id' (fold (\<lambda>g pkgs. renameGroup P pr (snd g) pkgs) gs pkgs) = map id' pkgs"
  by (induction gs arbitrary: pkgs) (simp_all add: renameGroup_def fold_setPrefix_ids)

lemma fold_renameGroup_other:
  assumes "\<forall>x. pr x = Some k \<longrightarrow> x = idk" and "\<forall>g \<in> set gs. idk \<notin> set (snd g)"
  shows "fold (\<lambda>g pkgs. renameGroup P pr (snd g) pkgs) gs pkgs ! k = pkgs ! k"
  using assms(2)
proof (induction gs arbitrary: pkgs)
  case Nil
  then show ?case by simp
next
  case (Cons g gs)
  have "renameGroup P pr (snd g) pkgs ! k = pkgs ! k"
    using assms(1) Cons.prems by (intro renameGroup_other [where idk = idk]) simp_all
  with Cons show ?case by simp
qed

lemma fold_renameGroup_at:
  assumes inj: "\<forall>x. pr x = Some k \<longrightarrow> x = idk" and prk: "pr idk = Some k"
    and k: "k < length pkgs" and d: "distinct (snd g)"
    and pos: "pos < length (snd g)" "snd g ! pos = idk" and many: "length (snd g) \<noteq> 1"
    and after: "\<forall>g' \<in> set gs2. idk \<notin> set (snd g')"
  shows "prefix (fold (\<lambda>g pkgs. renameGroup P pr (snd g) pkgs) (gs1 @ g # gs2) pkgs ! k) =
           findFirstUniqueFolderNames (snd g) ! pos @ '':'' @ basename P idk"
proof -
  let ?mid = "fold (\<lambda>g pkgs. renameGroup P pr (snd g) pkgs) gs1 pkgs"
  have len: "k < length ?mid" using k by (simp add: fold_renameGroup_length)
  have "fold (\<lambda>g pkgs. renameGroup P pr (snd g) pkgs) gs2 (renameGroup P pr (snd g) ?mid) ! k =
        renameGroup P pr (snd g) ?mid ! k"
    using inj after by (rule fold_renameGroup_other)
  moreover have "prefix (renameGroup P pr (snd g) ?mid ! k) =
           findFirstUniqueFolderNames (snd g) ! pos @ '':'' @ basename P idk"
    using inj prk len d pos many by (rule renameGroup_at)
  ultimately show ?thesis by simp
qed

subsection \<open>The assigner as a whole\<close>

lemma ownEntries_set: "set (ownEntries obj) = set obj"
  by (auto simp: ownEntries_def)

lemma ownEntries_distinct:
  assumes "distinct (map fst obj)"
  shows "distinct (map fst (ownEntries obj))"
proof -
  from assms have d: "distinct obj" and i: "inj_on fst (set obj)"
    by (simp_all add: distinct_map)
  have "distinct (ownEntries obj)"
    using d by (auto simp: ownEntries_def)
  moreover have "inj_on fst (set (ownEntries obj))"
    using i by (simp add: ownEntries_set)
  ultimately show ?thesis by (simp add: distinct_map)
qed

lemma folders_differ:
  assumes "pos \<noteq> pos'" and "pos < length paths" and "pos' < length paths"
  shows "findFirstUniqueFolderNames paths ! pos \<noteq> findFirstUniqueFolderNames paths ! pos' \<or>
         (findFirstUniqueFolderNames paths ! pos = [] \<and> findFirstUniqueFolderNames paths ! pos' = [])"
proof -
  let ?fs = "findFirstUniqueFolderNames paths"
  from findFirst_char [of paths] have len: "length ?fs = length paths"
    and u: "distinct (filter (\<lambda>f. f \<noteq> []) ?fs)"
    by (simp_all add: uniqueNonEmpty_def)
  show ?thesis
  proof (cases "?fs ! pos = [] \<or> ?fs ! pos' = []")
    case True
    then show ?thesis by auto
  next
    case False
    then have ne: "?fs ! pos \<noteq> []" "?fs ! pos' \<noteq> []" by simp_all
    show ?thesis
    proof (cases "pos < pos'")
      case True
      from distinct_filter_nth [OF u True] assms(3) len ne show ?thesis by simp
    next
      case False
      with assms(1) have lt: "pos' < pos" by simp
      from distinct_filter_nth [OF u lt] assms(2) len ne show ?thesis by auto
    qed
  qed
qed

text \<open>The assigner changes nothing but prefixes.\<close>

lemma setPrefix_rest:
  "map (\<lambda>x. x\<lparr>prefix := []\<rparr>) (setPrefix P pr z pkgs) = map (\<lambda>x. x\<lparr>prefix := []\<rparr>) pkgs"
proof (cases "pr (fst z)")
  case None
  then show ?thesis by (simp add: setPrefix_def)
next
  case (Some a)
  have "(map (\<lambda>x. x\<lparr>prefix := []\<rparr>) pkgs)[a := (pkgs ! a)\<lparr>prefix := []\<rparr>] = map (\<lambda>x. x\<lparr>prefix := []\<rparr>) pkgs"
    by (cases "a < length pkgs") (simp_all add: list_update_same_conv list_update_beyond)
  with Some show ?thesis by (simp add: setPrefix_def map_update)
qed

lemma fold_setPrefix_rest:
  "map (\<lambda>x. x\<lparr>prefix := []\<rparr>) (fold (setPrefix P pr) zs pkgs) = map (\<lambda>x. x\<lparr>prefix := []\<rparr>) pkgs"
  by (induction zs arbitrary: pkgs) (simp_all add: setPrefix_rest)

lemma fold_renameGroup_rest:
  "map (\<lambda>x. x\<lparr>prefix := []\<rparr>) (fold (\<lambda>g pkgs. renameGroup P pr (snd g) pkgs) gs pkgs) =
     map (\<lambda>x. x\<lparr>prefix := []\<rparr>) pkgs"
  by (induction gs arbitrary: pkgs) (simp_all add: renameGroup_def fold_setPrefix_rest)

lemma same_rest:
  assumes "map (\<lambda>x. x\<lparr>prefix := []\<rparr>) xs = map (\<lambda>x. x\<lparr>prefix := []\<rparr>) ys"
  shows "map id' xs = map id' ys" and "map arguments xs = map arguments ys"
proof -
  have "map id' xs = map id' (map (\<lambda>x. x\<lparr>prefix := []\<rparr>) xs)" by simp
  also have "\<dots> = map id' (map (\<lambda>x. x\<lparr>prefix := []\<rparr>) ys)" by (simp only: assms)
  finally show "map id' xs = map id' ys" by simp
  have "map arguments xs = map arguments (map (\<lambda>x. x\<lparr>prefix := []\<rparr>) xs)" by simp
  also have "\<dots> = map arguments (map (\<lambda>x. x\<lparr>prefix := []\<rparr>) ys)" by (simp only: assms)
  finally show "map arguments xs = map arguments ys" by simp
qed

lemma inherited_no_colon: "inherited k \<Longrightarrow> CHR '':'' \<notin> set k"
  by (auto simp: inherited_def objectPrototypeKeys_def)

text \<open>
  The assigner returns for every list whose prefixes are not names every object
  inherits, and then with the same projects in the same order, prefixes apart.
\<close>

lemma resolvePackagUniquePrefixes_returns:
  assumes "\<forall>p \<in> set packages. \<not> inherited (prefix p)"
  shows "\<exists>out. resolvePackagUniquePrefixes P packages = Inr out \<and>
     length out = length packages \<and>
     map id' out = map id' packages \<and> map arguments out = map arguments packages \<and>
     map (\<lambda>x. x\<lparr>prefix := []\<rparr>) out = map (\<lambda>x. x\<lparr>prefix := []\<rparr>) packages"
proof -
  have e: "distinct (map fst ([] :: groups))" by simp
  from collectPrefixes_ok [OF e assms, of 0 Map.empty] obtain obj pr where
    c: "collectPrefixes packages 0 ([], Map.empty) = Inr (obj, pr)"
    by blast
  let ?out = "fold (\<lambda>g pkgs. renameGroup P pr (snd g) pkgs) (ownEntries obj) packages"
  have "resolvePackagUniquePrefixes P packages = Inr ?out"
    using c by (simp add: resolvePackagUniquePrefixes_def)
  moreover have "length ?out = length packages" by (rule fold_renameGroup_length)
  moreover have "map (\<lambda>x. x\<lparr>prefix := []\<rparr>) ?out = map (\<lambda>x. x\<lparr>prefix := []\<rparr>) packages"
    by (rule fold_renameGroup_rest)
  ultimately show ?thesis using same_rest by blast
qed

text \<open>Where the assigner throws: at the first prefix that names an inherited member and has no group yet.\<close>

lemma resolvePackagUniquePrefixes_throws:
  "resolvePackagUniquePrefixes P [(configPackage ''/ws/vitest.config.ts'')\<lparr>prefix := ''constructor''\<rparr>]
     = Inl TypeError"
  by code_simp

text \<open>
  What the assigner returns, position by position: a project whose initial prefix is
  shared gets the disambiguator chosen for its place in the group.
\<close>

lemma resolvePackagUniquePrefixes_char:
  assumes d: "distinct (map id' packages)"
    and ni: "\<forall>p \<in> set packages. \<not> inherited (prefix p)"
  shows "\<exists>out. resolvePackagUniquePrefixes P packages = Inr out \<and>
     length out = length packages \<and> map id' out = map id' packages \<and>
     (\<forall>k < length packages.
        length (idsWithPrefix (prefix (packages ! k)) packages) \<noteq> 1 \<longrightarrow>
        (\<exists>pos < length (idsWithPrefix (prefix (packages ! k)) packages).
           idsWithPrefix (prefix (packages ! k)) packages ! pos = id' (packages ! k) \<and>
           prefix (out ! k) =
             findFirstUniqueFolderNames (idsWithPrefix (prefix (packages ! k)) packages) ! pos
               @ '':'' @ basename P (id' (packages ! k))))"
proof -
  have e: "distinct (map fst ([] :: groups))" by simp
  from collectPrefixes_ok [OF e ni, of 0 Map.empty] d obtain obj pr where c:
    "collectPrefixes packages 0 ([], Map.empty) = Inr (obj, pr)"
    "distinct (map fst obj)"
    "\<forall>k. groupOf obj k = idsWithPrefix k packages"
    "\<forall>x. x \<notin> set (map id' packages) \<longrightarrow> pr x = None"
    "\<forall>n < length packages. pr (id' (packages ! n)) = Some n"
    by (auto simp: groupOf_def)
  let ?gs = "ownEntries obj"
  let ?out = "fold (\<lambda>g pkgs. renameGroup P pr (snd g) pkgs) ?gs packages"
  have run: "resolvePackagUniquePrefixes P packages = Inr ?out"
    using c(1) by (simp add: resolvePackagUniquePrefixes_def)
  have len: "length ?out = length packages" by (rule fold_renameGroup_length)
  have ids: "map id' ?out = map id' packages" by (rule fold_renameGroup_ids)
  have entry: "snd g = idsWithPrefix (fst g) packages" if "g \<in> set ?gs" for g
  proof -
    from that have "g \<in> set obj" by (simp add: ownEntries_set)
    then have "(fst g, snd g) \<in> set obj" by simp
    with c(2) have "map_of obj (fst g) = Some (snd g)" by (rule map_of_is_SomeI)
    then have "groupOf obj (fst g) = snd g" by (simp add: groupOf_def)
    with c(3) show ?thesis by simp
  qed
  have main: "\<exists>pos < length (idsWithPrefix (prefix (packages ! k)) packages).
           idsWithPrefix (prefix (packages ! k)) packages ! pos = id' (packages ! k) \<and>
           prefix (?out ! k) =
             findFirstUniqueFolderNames (idsWithPrefix (prefix (packages ! k)) packages) ! pos
               @ '':'' @ basename P (id' (packages ! k))"
    if k: "k < length packages"
      and many: "length (idsWithPrefix (prefix (packages ! k)) packages) \<noteq> 1" for k
  proof -
    let ?p = "prefix (packages ! k)"
    let ?idk = "id' (packages ! k)"
    let ?paths = "idsWithPrefix ?p packages"
    have inj: "\<forall>x. pr x = Some k \<longrightarrow> x = ?idk"
    proof (intro allI impI)
      fix x assume x: "pr x = Some k"
      with c(4) have "x \<in> set (map id' packages)" by auto
      then obtain n where n: "n < length packages" "x = id' (packages ! n)"
        by (auto simp: in_set_conv_nth)
      with c(5) have "pr x = Some n" by simp
      with x n show "x = ?idk" by simp
    qed
    have prk: "pr ?idk = Some k" using c(5) k by simp
    have mem: "?idk \<in> set ?paths"
      using k by (auto simp: idsWithPrefix_def)
    then obtain pos where pos: "pos < length ?paths" "?paths ! pos = ?idk"
      by (auto simp: in_set_conv_nth)
    from mem have "groupOf obj ?p \<noteq> []" using c(3) by auto
    then have "map_of obj ?p = Some (groupOf obj ?p)"
      by (auto simp: groupOf_def split: option.splits)
    then have "(?p, ?paths) \<in> set obj" using c(3) by (auto dest: map_of_SomeD)
    then have "(?p, ?paths) \<in> set ?gs" by (simp add: ownEntries_set)
    then obtain gs1 gs2 where split: "?gs = gs1 @ (?p, ?paths) # gs2"
      by (auto dest: split_list)
    have dk: "distinct (map fst ?gs)" using c(2) by (rule ownEntries_distinct)
    have dpaths: "distinct (snd (?p, ?paths))"
      using d by (simp add: idsWithPrefix_def distinct_map_filter)
    have after: "\<forall>g' \<in> set gs2. ?idk \<notin> set (snd g')"
    proof
      fix g' assume g': "g' \<in> set gs2"
      then have "g' \<in> set ?gs" using split by simp
      then have sg: "snd g' = idsWithPrefix (fst g') packages" by (rule entry)
      from dk split have "?p \<notin> fst ` set gs2" by simp
      with g' have diff: "fst g' \<noteq> ?p" by (metis imageI)
      show "?idk \<notin> set (snd g')"
      proof
        assume "?idk \<in> set (snd g')"
        with sg obtain x where x: "x \<in> set packages" "prefix x = fst g'" "id' x = ?idk"
          by (auto simp: idsWithPrefix_def)
        from x(1) obtain n where n: "n < length packages" "x = packages ! n"
          by (auto simp: in_set_conv_nth)
        with x(3) d k have "n = k"
          using nth_eq_iff_index_eq [of "map id' packages" n k] by simp
        with n x(2) diff show False by simp
      qed
    qed
    have "prefix (fold (\<lambda>g pkgs. renameGroup P pr (snd g) pkgs) (gs1 @ (?p, ?paths) # gs2) packages ! k) =
           findFirstUniqueFolderNames (snd (?p, ?paths)) ! pos @ '':'' @ basename P ?idk"
      using inj prk k dpaths _ _ _ after
      by (rule fold_renameGroup_at) (use pos many in simp_all)
    with split pos show ?thesis by auto
  qed
  from run len ids main show ?thesis by blast
qed

lemma renameGroup_single: "length paths = 1 \<Longrightarrow> renameGroup P pr paths pkgs = pkgs"
  by (simp add: renameGroup_def)

lemma fold_renameGroup_single:
  assumes "\<forall>x. pr x = Some k \<longrightarrow> x = idk"
    and "\<forall>g \<in> set gs. idk \<notin> set (snd g) \<or> length (snd g) = 1"
  shows "fold (\<lambda>g pkgs. renameGroup P pr (snd g) pkgs) gs pkgs ! k = pkgs ! k"
  using assms(2)
proof (induction gs arbitrary: pkgs)
  case Nil
  then show ?case by simp
next
  case (Cons g gs)
  have "renameGroup P pr (snd g) pkgs ! k = pkgs ! k"
  proof (cases "length (snd g) = 1")
    case True
    then show ?thesis by (simp add: renameGroup_single)
  next
    case False
    with Cons.prems have "idk \<notin> set (snd g)" by simp
    with assms(1) show ?thesis by (rule renameGroup_other)
  qed
  with Cons show ?case by simp
qed

text \<open>A project whose initial prefix no other project has is returned as it is.\<close>

lemma resolvePackagUniquePrefixes_single:
  assumes d: "distinct (map id' packages)"
    and ni: "\<forall>p \<in> set packages. \<not> inherited (prefix p)"
    and k: "k < length packages"
    and single: "length (idsWithPrefix (prefix (packages ! k)) packages) = 1"
    and out: "resolvePackagUniquePrefixes P packages = Inr out"
  shows "out ! k = packages ! k"
proof -
  have e: "distinct (map fst ([] :: groups))" by simp
  from collectPrefixes_ok [OF e ni, of 0 Map.empty] d obtain obj pr where c:
    "collectPrefixes packages 0 ([], Map.empty) = Inr (obj, pr)"
    "distinct (map fst obj)"
    "\<forall>k. groupOf obj k = idsWithPrefix k packages"
    "\<forall>x. x \<notin> set (map id' packages) \<longrightarrow> pr x = None"
    "\<forall>n < length packages. pr (id' (packages ! n)) = Some n"
    by (auto simp: groupOf_def)
  let ?gs = "ownEntries obj"
  let ?idk = "id' (packages ! k)"
  have run: "out = fold (\<lambda>g pkgs. renameGroup P pr (snd g) pkgs) ?gs packages"
    using c(1) out by (simp add: resolvePackagUniquePrefixes_def)
  have inj: "\<forall>x. pr x = Some k \<longrightarrow> x = ?idk"
  proof (intro allI impI)
    fix x assume x: "pr x = Some k"
    with c(4) have "x \<in> set (map id' packages)" by auto
    then obtain n where n: "n < length packages" "x = id' (packages ! n)"
      by (auto simp: in_set_conv_nth)
    with c(5) have "pr x = Some n" by simp
    with x n show "x = ?idk" by simp
  qed
  have groups: "\<forall>g \<in> set ?gs. ?idk \<notin> set (snd g) \<or> length (snd g) = 1"
  proof
    fix g assume "g \<in> set ?gs"
    then have "(fst g, snd g) \<in> set obj" by (simp add: ownEntries_set)
    with c(2) have "map_of obj (fst g) = Some (snd g)" by (rule map_of_is_SomeI)
    then have "groupOf obj (fst g) = snd g" by (simp add: groupOf_def)
    with c(3) have sg: "snd g = idsWithPrefix (fst g) packages" by simp
    show "?idk \<notin> set (snd g) \<or> length (snd g) = 1"
    proof (cases "?idk \<in> set (snd g)")
      case False
      then show ?thesis ..
    next
      case True
      with sg obtain x where x: "x \<in> set packages" "prefix x = fst g" "id' x = ?idk"
        by (auto simp: idsWithPrefix_def)
      from x(1) obtain n where n: "n < length packages" "x = packages ! n"
        by (auto simp: in_set_conv_nth)
      with x(3) d k have "n = k"
        using nth_eq_iff_index_eq [of "map id' packages" n k] by simp
      with n x(2) sg single show ?thesis by simp
    qed
  qed
  from inj groups show ?thesis unfolding run by (rule fold_renameGroup_single)
qed

text \<open>
  Claim C2, as amended. For every list of projects with pairwise distinct ids and no
  prefix that names a member every object inherits (with such a prefix the assigner
  throws), the assigner returns the same projects in the same order, and:
  a project whose initial prefix no other project has keeps its prefix;
  two projects that shared an initial prefix and have the same base name of their id
  have different prefixes, unless both received the empty disambiguator, in which
  case both have the prefix \<^verbatim>\<open>:<basename>\<close>; and they do have different prefixes whenever
  one of them has a private segment, that is a non-empty remaining ancestor segment,
  not the name of an inherited member, that no other project of its group has.
  Nothing is said about projects of different groups.
\<close>

theorem unique_prefixes_in_group:
  assumes "distinct (map id' packages)"
    and "\<forall>p \<in> set packages. \<not> inherited (prefix p)"
  shows "\<exists>out. resolvePackagUniquePrefixes P packages = Inr out \<and>
     length out = length packages \<and> map id' out = map id' packages \<and>
     (\<forall>k. k < length packages \<and> length (idsWithPrefix (prefix (packages ! k)) packages) = 1 \<longrightarrow>
        out ! k = packages ! k) \<and>
     (\<forall>i j. i < length packages \<and> j < length packages \<and> i \<noteq> j \<and>
        prefix (packages ! i) = prefix (packages ! j) \<and>
        basename P (id' (packages ! i)) = basename P (id' (packages ! j)) \<longrightarrow>
        (prefix (out ! i) \<noteq> prefix (out ! j) \<or>
         (prefix (out ! i) = '':'' @ basename P (id' (packages ! i)) \<and>
          prefix (out ! j) = '':'' @ basename P (id' (packages ! j)))) \<and>
        ((\<exists>s. privateSegment s (id' (packages ! i)) (idsWithPrefix (prefix (packages ! i)) packages)) \<longrightarrow>
           prefix (out ! i) \<noteq> prefix (out ! j)))"
proof -
  from resolvePackagUniquePrefixes_char [OF assms, of P] obtain out where out:
    "resolvePackagUniquePrefixes P packages = Inr out"
    "length out = length packages" "map id' out = map id' packages"
    "\<forall>k < length packages.
        length (idsWithPrefix (prefix (packages ! k)) packages) \<noteq> 1 \<longrightarrow>
        (\<exists>pos < length (idsWithPrefix (prefix (packages ! k)) packages).
           idsWithPrefix (prefix (packages ! k)) packages ! pos = id' (packages ! k) \<and>
           prefix (out ! k) =
             findFirstUniqueFolderNames (idsWithPrefix (prefix (packages ! k)) packages) ! pos
               @ '':'' @ basename P (id' (packages ! k)))"
    by blast
  have single: "\<forall>k. k < length packages \<and> length (idsWithPrefix (prefix (packages ! k)) packages) = 1 \<longrightarrow>
        out ! k = packages ! k"
    using resolvePackagUniquePrefixes_single [OF assms _ _ out(1)] by blast
  have pair: "(prefix (out ! i) \<noteq> prefix (out ! j) \<or>
         (prefix (out ! i) = '':'' @ basename P (id' (packages ! i)) \<and>
          prefix (out ! j) = '':'' @ basename P (id' (packages ! j)))) \<and>
        ((\<exists>s. privateSegment s (id' (packages ! i)) (idsWithPrefix (prefix (packages ! i)) packages)) \<longrightarrow>
           prefix (out ! i) \<noteq> prefix (out ! j))"
    if i: "i < length packages" and j: "j < length packages" and ij: "i \<noteq> j"
      and same: "prefix (packages ! i) = prefix (packages ! j)"
      and base: "basename P (id' (packages ! i)) = basename P (id' (packages ! j))" for i j
  proof -
    let ?paths = "idsWithPrefix (prefix (packages ! i)) packages"
    let ?fs = "findFirstUniqueFolderNames ?paths"
    let ?b = "basename P (id' (packages ! i))"
    have idne: "id' (packages ! i) \<noteq> id' (packages ! j)"
      using assms(1) i j ij nth_eq_iff_index_eq [of "map id' packages" i j] by simp
    have mi: "id' (packages ! i) \<in> set ?paths" using i by (auto simp: idsWithPrefix_def)
    have mj: "id' (packages ! j) \<in> set ?paths" using j same by (auto simp: idsWithPrefix_def)
    have dpaths: "distinct ?paths"
      using assms(1) by (simp add: idsWithPrefix_def distinct_map_filter)
    have many: "length ?paths \<noteq> 1"
    proof
      assume "length ?paths = 1"
      then obtain x where "?paths = [x]" by (cases ?paths) auto
      with mi mj idne show False by simp
    qed
    from out(4) i many obtain pi where pi: "pi < length ?paths" "?paths ! pi = id' (packages ! i)"
      "prefix (out ! i) = ?fs ! pi @ '':'' @ ?b"
      by blast
    from out(4) j many same obtain pj where pj: "pj < length ?paths" "?paths ! pj = id' (packages ! j)"
      "prefix (out ! j) = ?fs ! pj @ '':'' @ basename P (id' (packages ! j))"
      by force
    from pi(2) pj(2) idne have ne: "pi \<noteq> pj" by auto
    from folders_differ [OF ne pi(1) pj(1)]
    have d: "?fs ! pi \<noteq> ?fs ! pj \<or> (?fs ! pi = [] \<and> ?fs ! pj = [])" .
    then have first: "prefix (out ! i) \<noteq> prefix (out ! j) \<or>
         (prefix (out ! i) = '':'' @ basename P (id' (packages ! i)) \<and>
          prefix (out ! j) = '':'' @ basename P (id' (packages ! j)))"
      using pi(3) pj(3) base by auto
    have second: "prefix (out ! i) \<noteq> prefix (out ! j)"
      if "\<exists>s. privateSegment s (id' (packages ! i)) ?paths"
    proof -
      from that obtain s where "privateSegment s (?paths ! pi) ?paths" using pi(2) by auto
      with dpaths pi(1) have "?fs ! pi \<noteq> []" by (rule private_segment_folder)
      with d have "?fs ! pi \<noteq> ?fs ! pj" by auto
      then show ?thesis using pi(3) pj(3) base by simp
    qed
    from first second show ?thesis by blast
  qed
  from out(1-3) single pair show ?thesis by blast
qed

theorem unique_prefixes_in_group_witness:
  "distinct (map id' mixedProjects) \<and>
   list_all (\<lambda>p. \<not> inherited (prefix p)) mixedProjects \<and>
   prefix (mixedProjects ! 0) = prefix (mixedProjects ! 1) \<and>
   basename posix (id' (mixedProjects ! 0)) = basename posix (id' (mixedProjects ! 1)) \<and>
   privateSegment ''y'' (id' (mixedProjects ! 0)) (idsWithPrefix (prefix (mixedProjects ! 0)) mixedProjects) \<and>
   length (idsWithPrefix (prefix (mixedProjects ! 2)) mixedProjects) = 1 \<and>
   (\<exists>out. resolvePackagUniquePrefixes posix mixedProjects = Inr out \<and> length out = 3 \<and>
      prefix (out ! 0) \<noteq> prefix (out ! 1) \<and> out ! 2 = mixedProjects ! 2)"
proof -
  have d: "distinct (map id' mixedProjects)" by code_simp
  have n: "list_all (\<lambda>p. \<not> inherited (prefix p)) mixedProjects" by code_simp
  then have n': "\<forall>p \<in> set mixedProjects. \<not> inherited (prefix p)" by (simp add: list_all_iff)
  have len: "length mixedProjects = 3" by code_simp
  have same: "prefix (mixedProjects ! 0) = prefix (mixedProjects ! 1)" by code_simp
  have base: "basename posix (id' (mixedProjects ! 0)) = basename posix (id' (mixedProjects ! 1))"
    by code_simp
  have priv: "privateSegment ''y'' (id' (mixedProjects ! 0)) (idsWithPrefix (prefix (mixedProjects ! 0)) mixedProjects)"
    by code_simp
  have one: "length (idsWithPrefix (prefix (mixedProjects ! 2)) mixedProjects) = 1" by code_simp
  from unique_prefixes_in_group [OF d n', of posix] obtain out where out:
    "resolvePackagUniquePrefixes posix mixedProjects = Inr out"
    "length out = length mixedProjects"
    "\<forall>k. k < length mixedProjects \<and> length (idsWithPrefix (prefix (mixedProjects ! k)) mixedProjects) = 1 \<longrightarrow>
        out ! k = mixedProjects ! k"
    "\<forall>i j. i < length mixedProjects \<and> j < length mixedProjects \<and> i \<noteq> j \<and>
        prefix (mixedProjects ! i) = prefix (mixedProjects ! j) \<and>
        basename posix (id' (mixedProjects ! i)) = basename posix (id' (mixedProjects ! j)) \<longrightarrow>
        (prefix (out ! i) \<noteq> prefix (out ! j) \<or>
         (prefix (out ! i) = '':'' @ basename posix (id' (mixedProjects ! i)) \<and>
          prefix (out ! j) = '':'' @ basename posix (id' (mixedProjects ! j)))) \<and>
        ((\<exists>s. privateSegment s (id' (mixedProjects ! i)) (idsWithPrefix (prefix (mixedProjects ! i)) mixedProjects)) \<longrightarrow>
           prefix (out ! i) \<noteq> prefix (out ! j))"
    by blast
  have hyp: "(0::nat) < length mixedProjects \<and> (1::nat) < length mixedProjects \<and> (0::nat) \<noteq> 1 \<and>
        prefix (mixedProjects ! 0) = prefix (mixedProjects ! 1) \<and>
        basename posix (id' (mixedProjects ! 0)) = basename posix (id' (mixedProjects ! 1))"
    using len same base by simp
  from out(4) hyp priv have diff: "prefix (out ! 0) \<noteq> prefix (out ! 1)" by blast
  have "(2::nat) < length mixedProjects" using len by simp
  with out(3) one have keep: "out ! 2 = mixedProjects ! 2" by blast
  from out(2) len have "length out = 3" by simp
  with d n same base priv one out(1) diff keep show ?thesis by blast
qed

text \<open>
  Claim C2, as stated, fails: the four projects have distinct ids and the same initial
  prefix \<^verbatim>\<open>react:vitest.config.ts\<close>, any two of them differ in a remaining ancestor
  segment, and the last two both receive the prefix \<^verbatim>\<open>:vitest.config.ts\<close>.
\<close>

theorem unique_prefixes_counterexample:
  "distinct (map id' reactProjects) \<and>
   map prefix reactProjects =
     [''react:vitest.config.ts'', ''react:vitest.config.ts'',
      ''react:vitest.config.ts'', ''react:vitest.config.ts''] \<and>
   list_all (\<lambda>p. list_all (\<lambda>q. p = q \<or> segmentsDiffer p q) reactPaths) reactPaths \<and>
   map_sum (\<lambda>e. e) (map prefix) (resolvePackagUniquePrefixes posix reactProjects) =
     Inr [''a:vitest.config.ts'', ''b:vitest.config.ts'', '':vitest.config.ts'', '':vitest.config.ts''] \<and>
   \<not> distinct [''a:vitest.config.ts'', ''b:vitest.config.ts'', '':vitest.config.ts'', '':vitest.config.ts'']"
  by code_simp

text \<open>
  Prefixes of different groups can coincide too: the two \<^verbatim>\<open>react\<close> projects are renamed
  after \<^verbatim>\<open>y\<close> and \<^verbatim>\<open>z\<close>, and the third project already has the prefix
  \<^verbatim>\<open>y:vitest.config.ts\<close>.
\<close>

lemma prefixes_collide_across_groups:
  "map prefix mixedProjects =
     [''react:vitest.config.ts'', ''react:vitest.config.ts'', ''y:vitest.config.ts''] \<and>
   map_sum (\<lambda>e. e) (map prefix) (resolvePackagUniquePrefixes posix mixedProjects) =
     Inr [''y:vitest.config.ts'', ''z:vitest.config.ts'', ''y:vitest.config.ts'']"
  by code_simp

section \<open>Properties of discovery\<close>

text \<open>
  Claim C1. Manifest-script discovery runs if and only if config-file discovery returned
  an empty project list with \<open>warned\<close> unset, and then its project list is the result;
  when config-file discovery returned a project, or returned none with \<open>warned\<close> set,
  only config-file discovery runs and its own project list is returned.
\<close>

theorem resolveVitestPackages_fallback_gating:
  "(ViaPackageJson \<in> set (fst (resolveVitestPackages env showWarning)) \<longleftrightarrow>
      (\<exists>vitest. resolveVitestPackagesViaConfigs env showWarning = Inr vitest
         \<and> meta vitest = [] \<and> \<not> warned vitest)) \<and>
   (\<forall>vitest. resolveVitestPackagesViaConfigs env showWarning = Inr vitest
        \<and> (meta vitest \<noteq> [] \<or> warned vitest) \<longrightarrow>
      resolveVitestPackages env showWarning = ([ViaConfigs], Inr (meta vitest))) \<and>
   (\<forall>vitest. resolveVitestPackagesViaConfigs env showWarning = Inr vitest
        \<and> meta vitest = [] \<and> \<not> warned vitest \<longrightarrow>
      resolveVitestPackages env showWarning =
        ([ViaConfigs, ViaPackageJson],
         map_sum (\<lambda>e. e) meta (resolveVitestPackagesViaPackageJson env showWarning)))"
  by (cases "resolveVitestPackagesViaConfigs env showWarning";
      cases "resolveVitestPackagesViaPackageJson env showWarning")
     (auto simp: resolveVitestPackages_def)

theorem resolveVitestPackages_fallback_gating_witness:
  "resolveVitestPackagesViaConfigs notInstalledEnv True = Inr \<lparr>meta = [], warned = True\<rparr> \<and>
   resolveVitestPackages notInstalledEnv True = ([ViaConfigs], Inr []) \<and>
   map_sum (\<lambda>e. e) (\<lambda>d. map id' (meta d)) (resolveVitestPackagesViaConfigs exampleEnv True) =
     Inr [''/ws/vitest.config.ts'', ''/ws/vite-lib.config.ts''] \<and>
   ViaPackageJson \<notin> set (fst (resolveVitestPackages exampleEnv True)) \<and>
   resolveVitestPackagesViaConfigs scriptsOnlyEnv True = Inr \<lparr>meta = [], warned = False\<rparr> \<and>
   map_sum (\<lambda>e. e) (map id') (snd (resolveVitestPackages scriptsOnlyEnv True)) =
     Inr [''/ws/package.json/test'', ''/ws/package.json/pretest'']"
proof -
  have a: "resolveVitestPackagesViaConfigs notInstalledEnv True = Inr \<lparr>meta = [], warned = True\<rparr>"
    by code_simp
  have b: "map_sum (\<lambda>e. e) (\<lambda>d. map id' (meta d)) (resolveVitestPackagesViaConfigs exampleEnv True) =
     Inr [''/ws/vitest.config.ts'', ''/ws/vite-lib.config.ts'']"
    by code_simp
  have c: "resolveVitestPackagesViaConfigs scriptsOnlyEnv True = Inr \<lparr>meta = [], warned = False\<rparr>"
    by code_simp
  have d: "map_sum (\<lambda>e. e) (map id') (map_sum (\<lambda>e. e) meta (resolveVitestPackagesViaPackageJson scriptsOnlyEnv True)) =
     Inr [''/ws/package.json/test'', ''/ws/package.json/pretest'']"
    by code_simp
  have a': "resolveVitestPackages notInstalledEnv True = ([ViaConfigs], Inr [])"
    using resolveVitestPackages_fallback_gating [of notInstalledEnv True] a by simp
  have b': "ViaPackageJson \<notin> set (fst (resolveVitestPackages exampleEnv True))"
  proof -
    obtain v where v: "resolveVitestPackagesViaConfigs exampleEnv True = Inr v"
      using b by (cases "resolveVitestPackagesViaConfigs exampleEnv True") auto
    with b have "meta v \<noteq> []" by auto
    with v show ?thesis
      using resolveVitestPackages_fallback_gating [of exampleEnv True] by auto
  qed
  have c': "resolveVitestPackages scriptsOnlyEnv True =
        ([ViaConfigs, ViaPackageJson],
         map_sum (\<lambda>e. e) meta (resolveVitestPackagesViaPackageJson scriptsOnlyEnv True))"
    using resolveVitestPackages_fallback_gating [of scriptsOnlyEnv True] c by simp
  show ?thesis using a a' b b' c c' d by simp
qed

subsection \<open>Config-file discovery\<close>

lemma pushTo_keys:
  assumes "pushTo obj k v = Inr obj'"
  shows "set (map fst obj') = insert k (set (map fst obj))"
proof (cases "map_of obj k")
  case None
  with assms show ?thesis by (auto simp: pushTo_def split: if_splits)
next
  case (Some vs)
  then have "k \<in> set (map fst obj)" by (metis map_of_eq_None_iff option.distinct(1) set_map)
  moreover from Some assms
  have "obj' = map (\<lambda>(k', vs'). if k' = k then (k', vs' @ [v]) else (k', vs')) obj"
    by (simp add: pushTo_def)
  ultimately show ?thesis by (auto simp only: map_fst_map_append)
qed

lemma configsByFolder_ok:
  assumes "distinct (map fst acc)" and "\<forall>c \<in> set configs. \<not> inherited (dirname P c)"
  shows "\<exists>obj'. configsByFolder P configs acc = Inr obj' \<and> distinct (map fst obj') \<and>
     (\<forall>k. groupOf obj' k = groupOf acc k @ filter (\<lambda>c. dirname P c = k) configs) \<and>
     set (map fst obj') = set (map fst acc) \<union> dirname P ` set configs"
  using assms
proof (induction configs arbitrary: acc)
  case Nil
  then show ?case by simp
next
  case (Cons c cs)
  from Cons.prems have ni: "\<not> inherited (dirname P c)" by simp
  from pushTo_ok [OF Cons.prems(1) ni, of c] obtain acc1 where acc1:
    "pushTo acc (dirname P c) c = Inr acc1" "distinct (map fst acc1)"
    "\<forall>k'. groupOf acc1 k' = (if k' = dirname P c then groupOf acc (dirname P c) @ [c] else groupOf acc k')"
    by blast
  from pushTo_keys [OF acc1(1)] have keys1: "set (map fst acc1) = insert (dirname P c) (set (map fst acc))" .
  from Cons.prems have rest: "\<forall>c \<in> set cs. \<not> inherited (dirname P c)" by simp
  from Cons.IH [OF acc1(2) rest] obtain obj' where res:
    "configsByFolder P cs acc1 = Inr obj'" "distinct (map fst obj')"
    "\<forall>k. groupOf obj' k = groupOf acc1 k @ filter (\<lambda>c. dirname P c = k) cs"
    "set (map fst obj') = set (map fst acc1) \<union> dirname P ` set cs"
    by blast
  have run: "configsByFolder P (c # cs) acc = Inr obj'" using acc1(1) res(1) by simp
  have grp: "\<forall>k. groupOf obj' k = groupOf acc k @ filter (\<lambda>c. dirname P c = k) (c # cs)"
    using res(3) acc1(3) by simp
  have keys: "set (map fst obj') = set (map fst acc) \<union> dirname P ` set (c # cs)"
    using res(4) keys1 by auto
  from run res(2) grp keys show ?case by blast
qed

lemma fold_resolveOne:
  "fold (resolveOne env showWarning) files acc =
     \<lparr>meta = meta acc @ map the (filter (\<lambda>v. v \<noteq> None) (map (resolveVitestConfig env showWarning) files)),
      warned = (warned acc \<or> list_ex (\<lambda>v. v = None) (map (resolveVitestConfig env showWarning) files))\<rparr>"
proof (induction files arbitrary: acc)
  case Nil
  then show ?case by simp
next
  case (Cons f fs)
  have step: "fold (resolveOne env showWarning) (f # fs) acc =
      fold (resolveOne env showWarning) fs (resolveOne env showWarning f acc)"
    by simp
  show ?case
  proof (cases "resolveVitestConfig env showWarning f")
    case None
    then have "resolveOne env showWarning f acc = acc\<lparr>warned := True\<rparr>"
      by (simp add: resolveOne_def)
    with None show ?thesis unfolding step Cons.IH by simp
  next
    case (Some v)
    then have "resolveOne env showWarning f acc = acc\<lparr>meta := meta acc @ [v]\<rparr>"
      by (simp add: resolveOne_def)
    with Some show ?thesis unfolding step Cons.IH by simp
  qed
qed

lemma fold_resolveFolder:
  "meta (fold (\<lambda>entry acc. resolveFolder env showWarning (snd entry) acc) es acc) =
     meta acc @ map the (filter (\<lambda>v. v \<noteq> None) (map (resolveVitestConfig env showWarning)
        (concat (map (\<lambda>e. filteredConfigFiles (pathe env) (snd e)) es))))"
proof (induction es arbitrary: acc)
  case Nil
  then show ?case by simp
next
  case (Cons e es)
  have step: "fold (\<lambda>entry acc. resolveFolder env showWarning (snd entry) acc) (e # es) acc =
      fold (\<lambda>entry acc. resolveFolder env showWarning (snd entry) acc) es
        (resolveFolder env showWarning (snd e) acc)"
    by simp
  show ?case unfolding step Cons.IH by (simp add: resolveFolder_def fold_resolveOne)
qed

lemma fold_resolveFolder_warned:
  "warned (fold (\<lambda>entry acc. resolveFolder env showWarning (snd entry) acc) es acc) =
     (warned acc \<or> list_ex (\<lambda>v. v = None) (map (resolveVitestConfig env showWarning)
        (concat (map (\<lambda>e. filteredConfigFiles (pathe env) (snd e)) es))))"
proof (induction es arbitrary: acc)
  case Nil
  then show ?case by simp
next
  case (Cons e es)
  have step: "fold (\<lambda>entry acc. resolveFolder env showWarning (snd entry) acc) (e # es) acc =
      fold (\<lambda>entry acc. resolveFolder env showWarning (snd entry) acc) es
        (resolveFolder env showWarning (snd e) acc)"
    by simp
  show ?case unfolding step Cons.IH by (auto simp add: resolveFolder_def fold_resolveOne)
qed

lemma resolveVitestConfig_prefix:
  assumes "resolveVitestConfig env showWarning file = Some v"
  shows "CHR '':'' \<in> set (prefix v)"
  using assms
  by (auto simp: resolveVitestConfig_def Let_def split: option.splits if_splits prod.splits)

text \<open>
  Claim C6, as amended. In a config-file discovery pass that finds no workspace file,
  the candidates are grouped by directory, the directories are visited one after the
  other, and in every directory whose candidates include a file whose base name contains
  \<^verbatim>\<open>vite.\<close> and a file whose base name contains \<^verbatim>\<open>vitest.\<close>, exactly the files whose base
  name contains \<^verbatim>\<open>vite.\<close> are dropped before resolution; in every other directory none
  is. The pass returns, and the project descriptors it returns are, prefixes apart,
  those of the remaining files that resolve, in the order of the directories and then of
  the candidates; \<open>warned\<close> is set exactly when a remaining file does not resolve. So
  every config whose base name contains \<^verbatim>\<open>vitest.\<close> and not \<^verbatim>\<open>vite.\<close> is kept, however many
  there are, and so is a candidate whose base name contains neither. No candidate is
  taken to lie in a directory whose path is the name of a member every object inherits
  (an absolute path never is): the grouping throws for such a directory.
\<close>

theorem folder_override_precedence:
  assumes "\<not> truthy (workspaceConfig env)" and "workspaceFiles env = []"
    and "configs = (if truthy (rootConfig env) then [the (rootConfig env)] else configFiles env)"
    and "\<forall>c \<in> set configs. \<not> inherited (dirname (pathe env) c)"
  shows "\<exists>d dirs. resolveVitestPackagesViaConfigs env showWarning = Inr d \<and>
     distinct dirs \<and> set dirs = dirname (pathe env) ` set configs \<and>
     map (\<lambda>x. x\<lparr>prefix := []\<rparr>) (meta d) =
       map (\<lambda>x. x\<lparr>prefix := []\<rparr>)
         (map the (filter (\<lambda>v. v \<noteq> None) (map (resolveVitestConfig env showWarning)
            (concat (map (\<lambda>dir.
               if hasViteAndVitestConfig (pathe env) (filter (\<lambda>c. dirname (pathe env) c = dir) configs)
               then filter (\<lambda>c. dirname (pathe env) c = dir \<and> \<not> isViteConfig (pathe env) c) configs
               else filter (\<lambda>c. dirname (pathe env) c = dir) configs) dirs))))) \<and>
     warned d = list_ex (\<lambda>v. v = None) (map (resolveVitestConfig env showWarning)
            (concat (map (\<lambda>dir.
               if hasViteAndVitestConfig (pathe env) (filter (\<lambda>c. dirname (pathe env) c = dir) configs)
               then filter (\<lambda>c. dirname (pathe env) c = dir \<and> \<not> isViteConfig (pathe env) c) configs
               else filter (\<lambda>c. dirname (pathe env) c = dir) configs) dirs)))"
proof -
  let ?P = "pathe env"
  let ?kept = "\<lambda>dir.
               if hasViteAndVitestConfig ?P (filter (\<lambda>c. dirname ?P c = dir) configs)
               then filter (\<lambda>c. dirname ?P c = dir \<and> \<not> isViteConfig ?P c) configs
               else filter (\<lambda>c. dirname ?P c = dir) configs"
  have e: "distinct (map fst ([] :: groups))" by simp
  from configsByFolder_ok [OF e assms(4)] obtain byFolder where b:
    "configsByFolder ?P configs [] = Inr byFolder" "distinct (map fst byFolder)"
    "\<forall>k. groupOf byFolder k = filter (\<lambda>c. dirname ?P c = k) configs"
    "set (map fst byFolder) = dirname ?P ` set configs"
    by (auto simp: groupOf_def)
  let ?es = "ownEntries byFolder"
  let ?dirs = "map fst ?es"
  let ?resolved = "fold (\<lambda>entry acc. resolveFolder env showWarning (snd entry) acc) ?es
                     \<lparr>meta = [], warned = False\<rparr>"
  have dd: "distinct ?dirs" using b(2) by (rule ownEntries_distinct)
  have sd: "set ?dirs = dirname ?P ` set configs"
    using b(4) by (simp add: ownEntries_set)
  have entry: "filteredConfigFiles ?P (snd g) = ?kept (fst g)" if "g \<in> set ?es" for g
  proof -
    from that have "(fst g, snd g) \<in> set byFolder" by (simp add: ownEntries_set)
    with b(2) have "map_of byFolder (fst g) = Some (snd g)" by (rule map_of_is_SomeI)
    then have "groupOf byFolder (fst g) = snd g" by (simp add: groupOf_def)
    with b(3) have "snd g = filter (\<lambda>c. dirname ?P c = fst g) configs" by simp
    then show ?thesis by (simp add: filteredConfigFiles_def conj_commute)
  qed
  have kept: "concat (map (\<lambda>g. filteredConfigFiles ?P (snd g)) ?es) = concat (map ?kept ?dirs)"
  proof -
    have "map (\<lambda>g. filteredConfigFiles ?P (snd g)) ?es = map (\<lambda>g. ?kept (fst g)) ?es"
      by (rule map_cong [OF refl]) (rule entry)
    also have "\<dots> = map ?kept ?dirs" by (simp only: map_map comp_def)
    finally show ?thesis by (simp only:)
  qed
  let ?found = "map the (filter (\<lambda>v. v \<noteq> None) (map (resolveVitestConfig env showWarning)
                  (concat (map ?kept ?dirs))))"
  have m: "meta ?resolved = ?found"
    unfolding fold_resolveFolder kept by simp
  have w: "warned ?resolved = list_ex (\<lambda>v. v = None) (map (resolveVitestConfig env showWarning)
                  (concat (map ?kept ?dirs)))"
    unfolding fold_resolveFolder_warned kept by simp
  have ni: "\<forall>p \<in> set ?found. \<not> inherited (prefix p)"
  proof
    fix p assume "p \<in> set ?found"
    then obtain cfile where "resolveVitestConfig env showWarning cfile = Some p" by auto
    then have "CHR '':'' \<in> set (prefix p)" by (rule resolveVitestConfig_prefix)
    then show "\<not> inherited (prefix p)" using inherited_no_colon by blast
  qed
  from resolvePackagUniquePrefixes_returns [OF ni, of ?P] obtain out where out:
    "resolvePackagUniquePrefixes ?P ?found = Inr out"
    "map (\<lambda>x. x\<lparr>prefix := []\<rparr>) out = map (\<lambda>x. x\<lparr>prefix := []\<rparr>) ?found"
    by blast
  have run: "resolveVitestPackagesViaConfigs env showWarning = Inr \<lparr>meta = out, warned = warned ?resolved\<rparr>"
    using assms(1,2) assms(3) [symmetric] b(1) out(1) m
    by (simp add: resolveVitestPackagesViaConfigs_def Let_def)
  show ?thesis
    using run dd sd out(2) w by (intro exI [of _ "\<lparr>meta = out, warned = warned ?resolved\<rparr>"] exI [of _ ?dirs]) simp
qed

theorem folder_override_precedence_witness:
  "\<not> truthy (workspaceConfig twoFolderEnv) \<and> workspaceFiles twoFolderEnv = [] \<and>
   \<not> truthy (rootConfig twoFolderEnv) \<and> configFiles twoFolderEnv = twoFolderFiles \<and>
   list_all (\<lambda>c. \<not> inherited (dirname (pathe twoFolderEnv) c)) twoFolderFiles \<and>
   map (dirname (pathe twoFolderEnv)) twoFolderFiles = [''/ws/a'', ''/ws/b'', ''/ws/a'', ''/ws/a''] \<and>
   (\<exists>d dirs. resolveVitestPackagesViaConfigs twoFolderEnv True = Inr d \<and>
      distinct dirs \<and> set dirs = {''/ws/a'', ''/ws/b''} \<and>
      map id' (meta d) =
        [''/ws/a/vitest.config.ts'', ''/ws/a/vitest.e2e.config.ts'', ''/ws/b/vite.config.ts''] \<and>
      \<not> warned d)"
proof -
  have w: "\<not> truthy (workspaceConfig twoFolderEnv)" by code_simp
  have f: "workspaceFiles twoFolderEnv = []" by code_simp
  have r: "\<not> truthy (rootConfig twoFolderEnv)" by code_simp
  have c: "configFiles twoFolderEnv = twoFolderFiles" by (simp add: twoFolderEnv_def)
  have cs: "twoFolderFiles = (if truthy (rootConfig twoFolderEnv) then [the (rootConfig twoFolderEnv)]
                              else configFiles twoFolderEnv)"
    using r c by simp
  have n: "list_all (\<lambda>c. \<not> inherited (dirname (pathe twoFolderEnv) c)) twoFolderFiles" by code_simp
  then have n': "\<forall>c \<in> set twoFolderFiles. \<not> inherited (dirname (pathe twoFolderEnv) c)"
    by (simp add: list_all_iff)
  have ds: "map (dirname (pathe twoFolderEnv)) twoFolderFiles = [''/ws/a'', ''/ws/b'', ''/ws/a'', ''/ws/a'']"
    by code_simp
  have img: "dirname (pathe twoFolderEnv) ` set twoFolderFiles = {''/ws/a'', ''/ws/b''}"
  proof -
    have "dirname (pathe twoFolderEnv) ` set twoFolderFiles = set (map (dirname (pathe twoFolderEnv)) twoFolderFiles)"
      by (simp only: set_map)
    also have "\<dots> = set [''/ws/a'', ''/ws/b'', ''/ws/a'', ''/ws/a'']" by (simp only: ds)
    also have "\<dots> = {''/ws/a'', ''/ws/b''}" by (simp only: list.set insert_absorb2 insert_commute)
    finally show ?thesis .
  qed
  have run: "map_sum (\<lambda>e. e) (\<lambda>d. (map id' (meta d), warned d)) (resolveVitestPackagesViaConfigs twoFolderEnv True) =
      Inr ([''/ws/a/vitest.config.ts'', ''/ws/a/vitest.e2e.config.ts'', ''/ws/b/vite.config.ts''], False)"
    by code_simp
  from folder_override_precedence [OF w f cs n', of True] obtain d dirs where d:
    "resolveVitestPackagesViaConfigs twoFolderEnv True = Inr d" "distinct dirs"
    "set dirs = dirname (pathe twoFolderEnv) ` set twoFolderFiles"
    by blast
  from run have "(map id' (meta d), warned d) =
      ([''/ws/a/vitest.config.ts'', ''/ws/a/vitest.e2e.config.ts'', ''/ws/b/vite.config.ts''], False)"
    unfolding d(1) by (simp only: map_sum.simps sum.inject)
  then have ids: "map id' (meta d) =
        [''/ws/a/vitest.config.ts'', ''/ws/a/vitest.e2e.config.ts'', ''/ws/b/vite.config.ts'']"
    and nw: "\<not> warned d"
    by (simp_all only: prod.inject simp_thms)
  have sd: "set dirs = {''/ws/a'', ''/ws/b''}" using d(3) by (simp only: img)
  have ex: "\<exists>d dirs. resolveVitestPackagesViaConfigs twoFolderEnv True = Inr d \<and>
      distinct dirs \<and> set dirs = {''/ws/a'', ''/ws/b''} \<and>
      map id' (meta d) =
        [''/ws/a/vitest.config.ts'', ''/ws/a/vitest.e2e.config.ts'', ''/ws/b/vite.config.ts''] \<and>
      \<not> warned d"
    by (intro exI [of _ d] exI [of _ dirs] conjI d(1) d(2) sd ids nw)
  show ?thesis by (intro conjI w f r c n ds ex)
qed

text \<open>
  Claim C6, as stated, fails: next to \<^verbatim>\<open>vite.config.ts\<close> and \<^verbatim>\<open>vitest.config.ts\<close>, the
  file \<^verbatim>\<open>vite-lib.config.ts\<close>, whose base name contains neither \<^verbatim>\<open>vite.\<close> nor
  \<^verbatim>\<open>vitest.\<close>, is kept and produces a project descriptor.
\<close>

theorem folder_override_counterexample:
  "hasViteAndVitestConfig (pathe exampleEnv) exampleFiles \<and>
   \<not> isVitestConfig (pathe exampleEnv) ''/ws/vite-lib.config.ts'' \<and>
   map id' (meta (resolveFolder exampleEnv True exampleFiles \<lparr>meta = [], warned = False\<rparr>))
     = [''/ws/vitest.config.ts'', ''/ws/vite-lib.config.ts''] \<and>
   map_sum (\<lambda>e. e) (\<lambda>d. map id' (meta d)) (resolveVitestPackagesViaConfigs exampleEnv True)
     = Inr [''/ws/vitest.config.ts'', ''/ws/vite-lib.config.ts'']"
  by code_simp

subsection \<open>Manifest-script discovery\<close>










section \<open>Properties of the worker\<close>

lemma initProject_ok:
  assumes "chdir rt (dirname (workerPathe rt) (id' m)) = None"
    and "readable (initVitest rt (dirname (workerPathe rt) (id' m)) m)"
  shows "\<exists>st'. initProject rt m st = Inr st' \<and>
     instances st' = instances st @ constructedOf rt [m] \<and>
     failures st' = failures st @ failuresOf rt [m] \<and>
     constructions (process st') =
       constructions (process st) @ [(id' m, dirname (workerPathe rt) (id' m))] \<and>
     workingDir (process st') = dirname (workerPathe rt) (id' m) \<and>
     startCwd (process st') = startCwd (process st) \<and>
     outbox (process st') = outbox (process st) \<and>
     listening (process st') = listening (process st)"
proof (cases "initVitest rt (dirname (workerPathe rt) (id' m)) m")
  case (Inr v)
  with assms(1) show ?thesis
    by (simp add: initProject_def constructedOf_def failuresOf_def Let_def)
next
  case (Inl err)
  with assms(2) obtain stack where "readStack err = Inr stack"
    by (cases err) (simp_all add: readable_def)
  with Inl assms(1) show ?thesis
    by (simp add: initProject_def constructedOf_def failuresOf_def Let_def)
qed

lemma constructedOf_Cons: "constructedOf rt (m # ms) = constructedOf rt [m] @ constructedOf rt ms"
  by (simp add: constructedOf_def)

lemma failuresOf_Cons: "failuresOf rt (m # ms) = failuresOf rt [m] @ failuresOf rt ms"
  by (simp add: failuresOf_def)

lemma initLoop_ok:
  assumes "\<forall>m \<in> set metas. chdir rt (dirname (workerPathe rt) (id' m)) = None"
    and "\<forall>m \<in> set metas. readable (initVitest rt (dirname (workerPathe rt) (id' m)) m)"
  shows "\<exists>st'. initLoop rt metas st = Inr st' \<and>
     instances st' = instances st @ constructedOf rt metas \<and>
     failures st' = failures st @ failuresOf rt metas \<and>
     constructions (process st') =
       constructions (process st) @ map (\<lambda>m. (id' m, dirname (workerPathe rt) (id' m))) metas \<and>
     workingDir (process st') =
       (if metas = [] then workingDir (process st) else dirname (workerPathe rt) (id' (last metas))) \<and>
     startCwd (process st') = startCwd (process st) \<and>
     outbox (process st') = outbox (process st) \<and>
     listening (process st') = listening (process st)"
  using assms
proof (induction metas arbitrary: st)
  case Nil
  then show ?case by (simp add: constructedOf_def failuresOf_def)
next
  case (Cons m ms)
  from Cons.prems have c: "chdir rt (dirname (workerPathe rt) (id' m)) = None"
    and r: "readable (initVitest rt (dirname (workerPathe rt) (id' m)) m)" by simp_all
  from initProject_ok [OF c r, of st] obtain st1 where st1:
    "initProject rt m st = Inr st1"
    "instances st1 = instances st @ constructedOf rt [m]"
    "failures st1 = failures st @ failuresOf rt [m]"
    "constructions (process st1) =
       constructions (process st) @ [(id' m, dirname (workerPathe rt) (id' m))]"
    "workingDir (process st1) = dirname (workerPathe rt) (id' m)"
    "startCwd (process st1) = startCwd (process st)"
    "outbox (process st1) = outbox (process st)"
    "listening (process st1) = listening (process st)"
    by blast
  from Cons.prems have cs: "\<forall>m \<in> set ms. chdir rt (dirname (workerPathe rt) (id' m)) = None"
    and rs: "\<forall>m \<in> set ms. readable (initVitest rt (dirname (workerPathe rt) (id' m)) m)"
    by simp_all
  from Cons.IH [OF cs rs, of st1] obtain st2 where st2:
    "initLoop rt ms st1 = Inr st2"
    "instances st2 = instances st1 @ constructedOf rt ms"
    "failures st2 = failures st1 @ failuresOf rt ms"
    "constructions (process st2) =
       constructions (process st1) @ map (\<lambda>m. (id' m, dirname (workerPathe rt) (id' m))) ms"
    "workingDir (process st2) =
       (if ms = [] then workingDir (process st1) else dirname (workerPathe rt) (id' (last ms)))"
    "startCwd (process st2) = startCwd (process st1)"
    "outbox (process st2) = outbox (process st1)"
    "listening (process st2) = listening (process st1)"
    by blast
  have "initLoop rt (m # ms) st = Inr st2" using st1(1) st2(1) by simp
  moreover have "instances st2 = instances st @ constructedOf rt (m # ms)"
    using st1(2) st2(2) constructedOf_Cons [of rt m ms] by simp
  moreover have "failures st2 = failures st @ failuresOf rt (m # ms)"
    using st1(3) st2(3) failuresOf_Cons [of rt m ms] by simp
  moreover have "constructions (process st2) =
       constructions (process st) @ map (\<lambda>m. (id' m, dirname (workerPathe rt) (id' m))) (m # ms)"
    using st1(4) st2(4) by simp
  moreover have "workingDir (process st2) =
       (if m # ms = [] then workingDir (process st) else dirname (workerPathe rt) (id' (last (m # ms))))"
    using st1(5) st2(5) by simp
  ultimately show ?case using st1(6-8) st2(6-8) by simp
qed

lemma constructed_failed_length:
  assumes "\<forall>m \<in> set metas. readable (initVitest rt (dirname (workerPathe rt) (id' m)) m)"
  shows "length (constructedOf rt metas) + length (failuresOf rt metas) = length metas"
  using assms
proof (induction metas)
  case Nil
  then show ?case by (simp add: constructedOf_def failuresOf_def)
next
  case (Cons m ms)
  have "length (constructedOf rt [m]) + length (failuresOf rt [m]) = 1"
  proof (cases "initVitest rt (dirname (workerPathe rt) (id' m)) m")
    case (Inr v)
    then show ?thesis by (simp add: constructedOf_def failuresOf_def)
  next
    case (Inl err)
    with Cons.prems obtain stack where "readStack err = Inr stack"
      by (cases err) (simp_all add: readable_def)
    with Inl show ?thesis by (simp add: constructedOf_def failuresOf_def)
  qed
  with Cons show ?case
    using constructedOf_Cons [of rt m ms] failuresOf_Cons [of rt m ms] by simp
qed

text \<open>
  Claim C4, as amended. When nothing outside the construction of a project throws (the
  registration of the loader, entering each descriptor's directory and the original
  one, and the wiring of the RPC), and no construction throws a value whose \<^verbatim>\<open>stack\<close>
  cannot be read (\<^verbatim>\<open>null\<close>, \<^verbatim>\<open>undefined\<close>), the worker handles an \<open>init\<close> message
  with one reply: every descriptor is tried, each construction failure is collected as
  an \<open>(id, stack)\<close> pair in order, and the reply has type \<^verbatim>\<open>error\<close> if no context was
  constructed and type \<^verbatim>\<open>ready\<close> otherwise, carrying the collected pairs either way.
\<close>

theorem init_collects_failures:
  assumes "listening p"
    and "truthy loader' \<longrightarrow> register rt (the loader') = None"
    and "\<forall>m \<in> set metas. chdir rt (dirname (workerPathe rt) (id' m)) = None"
    and "chdir rt (startCwd p) = None"
    and "constructedOf rt metas \<noteq> [] \<longrightarrow> wireRpc rt (constructedOf rt metas) = None"
    and "\<forall>m \<in> set metas. readable (initVitest rt (dirname (workerPathe rt) (id' m)) m)"
  shows "outbox (init rt (Init metas loader') p) =
           outbox p @ [Reply (if constructedOf rt metas = [] then ''error'' else ''ready'')
                         (errorPairs (failuresOf rt metas))] \<and>
         map fst (constructions (init rt (Init metas loader') p)) =
           map fst (constructions p) @ map id' metas \<and>
         length (constructedOf rt metas) + length (failuresOf rt metas) = length metas"
proof -
  let ?off = "p\<lparr>listening := False\<rparr>"
  let ?start = "\<lparr>process = ?off, instances = [], failures = []\<rparr> :: 'a InitLoop"
  from initLoop_ok [OF assms(3) assms(6), of ?start] obtain st where st:
    "initLoop rt metas ?start = Inr st"
    "instances st = constructedOf rt metas"
    "failures st = failuresOf rt metas"
    "constructions (process st) =
       constructions p @ map (\<lambda>m. (id' m, dirname (workerPathe rt) (id' m))) metas"
    "outbox (process st) = outbox p"
    by auto
  have reg: "(if truthy loader' then register rt (the loader') else None) = None"
    using assms(2) by simp
  let ?st' = "st\<lparr>process := (process st)\<lparr>workingDir := startCwd p\<rparr>\<rparr>"
  have body: "initBody rt metas loader' ?off =
      Inr (?st'\<lparr>process := send (Reply (if constructedOf rt metas = [] then ''error'' else ''ready'')
                                 (errorPairs (failuresOf rt metas))) (process ?st')\<rparr>)"
    using reg st(1-3) assms(4,5) by (simp add: initBody_def Let_def)
  have "init rt (Init metas loader') p =
      send (Reply (if constructedOf rt metas = [] then ''error'' else ''ready'')
                                 (errorPairs (failuresOf rt metas))) (process ?st')"
    using assms(1) body by (simp add: init_def)
  then show ?thesis
    using st(4,5) constructed_failed_length [OF assms(6)] by (simp add: send_def comp_def)
qed

theorem init_collects_failures_witness:
  "outbox (init (failingFor [id' projectB]) (Init [projectA, projectB, projectC] None) (startedIn ''/home'')) =
     [Reply ''ready'' (JArr [JArr [JStr ''/ws/b/vitest.config.ts'',
                                   JStr ''Error: cannot start /ws/b/vitest.config.ts'']])] \<and>
   length (constructedOf (failingFor [id' projectB]) [projectA, projectB, projectC]) = 2 \<and>
   outbox (init (failingFor [id' projectA, id' projectB, id' projectC])
             (Init [projectA, projectB, projectC] None) (startedIn ''/home'')) =
     [Reply ''error'' (JArr [JArr [JStr ''/ws/a/vitest.config.ts'',
                                   JStr ''Error: cannot start /ws/a/vitest.config.ts''],
                             JArr [JStr ''/ws/b/vitest.config.ts'',
                                   JStr ''Error: cannot start /ws/b/vitest.config.ts''],
                             JArr [JStr ''/ws/c/vitest.config.ts'',
                                   JStr ''Error: cannot start /ws/c/vitest.config.ts'']])] \<and>
   constructedOf (failingFor [id' projectA, id' projectB, id' projectC]) [projectA, projectB, projectC] = []"
proof -
  let ?one = "failingFor [id' projectB]"
  let ?all = "failingFor [id' projectA, id' projectB, id' projectC]"
  let ?ms = "[projectA, projectB, projectC]"
  have l: "listening (startedIn ''/home'')" by (simp add: startedIn_def)
  have ob: "outbox (startedIn ''/home'') = []" by (simp add: startedIn_def)
  have r: "truthy None \<longrightarrow> register rt (the None) = None" for rt :: "nat Runtime"
    by (simp add: truthy_def)
  have c: "\<forall>m \<in> set ?ms. chdir (failingFor ids) (dirname (workerPathe (failingFor ids)) (id' m)) = None" for ids
    by (simp add: failingFor_def)
  have s: "chdir (failingFor ids) (startCwd (startedIn ''/home'')) = None" for ids
    by (simp add: failingFor_def)
  have w: "constructedOf (failingFor ids) ?ms \<noteq> [] \<longrightarrow>
      wireRpc (failingFor ids) (constructedOf (failingFor ids) ?ms) = None" for ids
    by (simp add: failingFor_def)
  have rd: "\<forall>m \<in> set ?ms. readable (initVitest (failingFor ids)
      (dirname (workerPathe (failingFor ids)) (id' m)) m)" for ids
    by (simp add: failingFor_def readable_def)
  have c1: "length (constructedOf ?one ?ms) = 2" by code_simp
  have f1: "errorPairs (failuresOf ?one ?ms) =
      JArr [JArr [JStr ''/ws/b/vitest.config.ts'', JStr ''Error: cannot start /ws/b/vitest.config.ts'']]"
    by code_simp
  have c3: "constructedOf ?all ?ms = []" by code_simp
  have f3: "errorPairs (failuresOf ?all ?ms) =
      JArr [JArr [JStr ''/ws/a/vitest.config.ts'', JStr ''Error: cannot start /ws/a/vitest.config.ts''],
            JArr [JStr ''/ws/b/vitest.config.ts'', JStr ''Error: cannot start /ws/b/vitest.config.ts''],
            JArr [JStr ''/ws/c/vitest.config.ts'', JStr ''Error: cannot start /ws/c/vitest.config.ts'']]"
    by code_simp
  from c1 have ne: "constructedOf ?one ?ms \<noteq> []" by auto
  from init_collects_failures [OF l r [of ?one] c [of "[id' projectB]"] s [of "[id' projectB]"]
      w [of "[id' projectB]"] rd [of "[id' projectB]"]] ne
  have "outbox (init ?one (Init ?ms None) (startedIn ''/home'')) =
      [Reply ''ready'' (errorPairs (failuresOf ?one ?ms))]"
    by (simp add: ob)
  moreover from init_collects_failures [OF l r [of ?all] c [of "[id' projectA, id' projectB, id' projectC]"]
      s [of "[id' projectA, id' projectB, id' projectC]"]
      w [of "[id' projectA, id' projectB, id' projectC]"]
      rd [of "[id' projectA, id' projectB, id' projectC]"]] c3
  have "outbox (init ?all (Init ?ms None) (startedIn ''/home'')) =
      [Reply ''error'' (errorPairs (failuresOf ?all ?ms))]"
    by (simp add: ob)
  ultimately show ?thesis using c1 c3 f1 f3 by simp
qed

text \<open>
  Claim C4, as stated, fails: when the directory of the second of three descriptors
  cannot be entered, the first context has been constructed, the third descriptor is
  never tried, and the reply has type \<^verbatim>\<open>error\<close>.
\<close>

theorem init_collects_failures_counterexample:
  "map (\<lambda>v. id' (fst v))
     (instances (endState (initLoop missingDirB [projectA, projectB, projectC]
        \<lparr>process = startedIn ''/home'', instances = [], failures = []\<rparr>)))
     = [''/ws/a/vitest.config.ts''] \<and>
   map fst (constructions (init missingDirB (Init [projectA, projectB, projectC] None) (startedIn ''/home'')))
     = [''/ws/a/vitest.config.ts''] \<and>
   map replyType (outbox (init missingDirB (Init [projectA, projectB, projectC] None) (startedIn ''/home'')))
     = [''error'']"
  by code_simp

lemma initProject_constructions:
  "\<forall>c \<in> set (constructions (process (endState (initProject rt m st)))).
     c \<in> set (constructions (process st)) \<or> snd c = dirname (workerPathe rt) (fst c)"
  by (cases "chdir rt (dirname (workerPathe rt) (id' m))";
      cases "initVitest rt (dirname (workerPathe rt) (id' m)) m")
     (auto simp: initProject_def endState_def Let_def split: sum.splits)

lemma initLoop_constructions:
  "\<forall>c \<in> set (constructions (process (endState (initLoop rt metas st)))).
     c \<in> set (constructions (process st)) \<or> snd c = dirname (workerPathe rt) (fst c)"
proof (induction metas arbitrary: st)
  case Nil
  then show ?case by (simp add: endState_def)
next
  case (Cons m ms)
  show ?case
  proof (cases "initProject rt m st")
    case (Inl e)
    then have "endState (initLoop rt (m # ms) st) = endState (initProject rt m st)"
      by (simp add: endState_def)
    with initProject_constructions [of rt m st] show ?thesis by simp
  next
    case (Inr st1)
    then have eq: "endState (initLoop rt (m # ms) st) = endState (initLoop rt ms st1)"
      by simp
    from Inr have st1: "endState (initProject rt m st) = st1" by (simp add: endState_def)
    show ?thesis
      unfolding eq using Cons.IH [of st1] initProject_constructions [of rt m st] st1 by auto
  qed
qed

lemma initBody_constructions:
  "\<forall>c \<in> set (constructions (process (endState (initBody rt metas loader' p)))).
     c \<in> set (constructions p) \<or> snd c = dirname (workerPathe rt) (fst c)"
proof -
  let ?finart = "\<lparr>process = p, instances = [], failures = []\<rparr> :: 'a InitLoop"
  let ?fin = "endState (initLoop rt metas ?finart)"
  have loop: "\<forall>c \<in> set (constructions (process ?fin)).
     c \<in> set (constructions p) \<or> snd c = dirname (workerPathe rt) (fst c)"
    using initLoop_constructions [of rt metas ?finart] by simp
  have "constructions (process (endState (initBody rt metas loader' p))) = constructions p \<or>
        constructions (process (endState (initBody rt metas loader' p))) = constructions (process ?fin)"
    by (cases "initLoop rt metas ?finart")
       (auto simp: initBody_def endState_def send_def Let_def split: option.splits)
  with loop show ?thesis by auto
qed

text \<open>
  Claim C8, as amended. Every context is constructed with the working directory of the
  process set to the directory of its descriptor, and after a project's initialization
  the working directory stays there: it is not restored between projects. When the
  registration of the loader and every change of directory succeed, and no construction
  throws a value whose \<^verbatim>\<open>stack\<close> cannot be read (\<^verbatim>\<open>null\<close>, \<^verbatim>\<open>undefined\<close>), the working
  directory is the worker's original one after the \<open>init\<close> message has been handled: it
  is restored once, after the last project.
\<close>

theorem init_working_directory:
  "(\<forall>c \<in> set (constructions (init rt (Init metas loader') p)).
      c \<in> set (constructions p) \<or> snd c = dirname (workerPathe rt) (fst c)) \<and>
   (\<forall>st'. initProject rt m st = Inr st' \<longrightarrow>
      workingDir (process st') = dirname (workerPathe rt) (id' m)) \<and>
   (listening p \<and> (truthy loader' \<longrightarrow> register rt (the loader') = None) \<and>
    (\<forall>m \<in> set metas. chdir rt (dirname (workerPathe rt) (id' m)) = None) \<and>
    (\<forall>m \<in> set metas. readable (initVitest rt (dirname (workerPathe rt) (id' m)) m)) \<and>
    chdir rt (startCwd p) = None \<longrightarrow>
      workingDir (init rt (Init metas loader') p) = startCwd p)"
proof -
  have one: "\<forall>c \<in> set (constructions (init rt (Init metas loader') p)).
      c \<in> set (constructions p) \<or> snd c = dirname (workerPathe rt) (fst c)"
  proof (cases "listening p")
    case False
    then show ?thesis by (simp add: init_def)
  next
    case True
    let ?r = "initBody rt metas loader' (p\<lparr>listening := False\<rparr>)"
    have "constructions (init rt (Init metas loader') p) = constructions (process (endState ?r))"
      using True by (cases ?r) (auto simp: init_def endState_def error_def send_def split: sum.splits)
    with initBody_constructions [of rt metas loader' "p\<lparr>listening := False\<rparr>"]
    show ?thesis by simp
  qed
  have two: "\<forall>st'. initProject rt m st = Inr st' \<longrightarrow>
      workingDir (process st') = dirname (workerPathe rt) (id' m)"
    by (cases "chdir rt (dirname (workerPathe rt) (id' m))";
        cases "initVitest rt (dirname (workerPathe rt) (id' m)) m")
       (auto simp: initProject_def Let_def split: sum.splits)
  have three: "listening p \<and> (truthy loader' \<longrightarrow> register rt (the loader') = None) \<and>
    (\<forall>m \<in> set metas. chdir rt (dirname (workerPathe rt) (id' m)) = None) \<and>
    (\<forall>m \<in> set metas. readable (initVitest rt (dirname (workerPathe rt) (id' m)) m)) \<and>
    chdir rt (startCwd p) = None \<longrightarrow>
      workingDir (init rt (Init metas loader') p) = startCwd p"
  proof
    assume a: "listening p \<and> (truthy loader' \<longrightarrow> register rt (the loader') = None) \<and>
      (\<forall>m \<in> set metas. chdir rt (dirname (workerPathe rt) (id' m)) = None) \<and>
      (\<forall>m \<in> set metas. readable (initVitest rt (dirname (workerPathe rt) (id' m)) m)) \<and>
      chdir rt (startCwd p) = None"
    let ?off = "p\<lparr>listening := False\<rparr>"
    let ?start = "\<lparr>process = ?off, instances = [], failures = []\<rparr> :: 'a InitLoop"
    from a have ch: "\<forall>m \<in> set metas. chdir rt (dirname (workerPathe rt) (id' m)) = None"
      and rd: "\<forall>m \<in> set metas. readable (initVitest rt (dirname (workerPathe rt) (id' m)) m)"
      by blast+
    from initLoop_ok [OF ch rd, of ?start] obtain st where st: "initLoop rt metas ?start = Inr st"
      by blast
    have reg: "(if truthy loader' then register rt (the loader') else None) = None"
      using a by simp
    have "workingDir (process (endState (initBody rt metas loader' ?off))) = startCwd p"
      using reg st a
      by (cases "wireRpc rt (instances st)")
         (simp_all add: initBody_def endState_def send_def Let_def)
    moreover have "workingDir (init rt (Init metas loader') p) =
        workingDir (process (endState (initBody rt metas loader' ?off)))"
      using a by (cases "initBody rt metas loader' ?off")
        (auto simp: init_def endState_def error_def send_def split: sum.splits)
    ultimately show "workingDir (init rt (Init metas loader') p) = startCwd p" by simp
  qed
  from one two three show ?thesis by blast
qed

theorem init_working_directory_witness:
  "constructions (init (failingFor [id' projectB]) (Init [projectA, projectB, projectC] None) (startedIn ''/home''))
     = [(''/ws/a/vitest.config.ts'', ''/ws/a''), (''/ws/b/vitest.config.ts'', ''/ws/b''),
        (''/ws/c/vitest.config.ts'', ''/ws/c'')] \<and>
   workingDir (init (failingFor [id' projectB]) (Init [projectA, projectB, projectC] None) (startedIn ''/home''))
     = ''/home''"
proof -
  let ?rt = "failingFor [id' projectB]"
  let ?ms = "[projectA, projectB, projectC]"
  have h: "listening (startedIn ''/home'') \<and> (truthy None \<longrightarrow> register ?rt (the None) = None) \<and>
    (\<forall>m \<in> set ?ms. chdir ?rt (dirname (workerPathe ?rt) (id' m)) = None) \<and>
    (\<forall>m \<in> set ?ms. readable (initVitest ?rt (dirname (workerPathe ?rt) (id' m)) m)) \<and>
    chdir ?rt (startCwd (startedIn ''/home'')) = None"
    by (simp add: startedIn_def failingFor_def truthy_def readable_def)
  have s: "startCwd (startedIn ''/home'') = ''/home''" by (simp add: startedIn_def)
  have c: "constructions (init ?rt (Init ?ms None) (startedIn ''/home''))
     = [(''/ws/a/vitest.config.ts'', ''/ws/a''), (''/ws/b/vitest.config.ts'', ''/ws/b''),
        (''/ws/c/vitest.config.ts'', ''/ws/c'')]"
    by code_simp
  from init_working_directory [of ?rt ?ms None "startedIn ''/home''"] h
  have "workingDir (init ?rt (Init ?ms None) (startedIn ''/home'')) = startCwd (startedIn ''/home'')"
    by blast
  with c s show ?thesis by simp
qed

text \<open>
  Claim C8, as stated, fails: after the first project has been initialized the working
  directory is that project's directory, not the original one, and the second project
  is constructed without a restore in between; and when a directory cannot be entered,
  or a construction rejects with \<^verbatim>\<open>null\<close>, the working directory is not restored at all.
\<close>

theorem init_working_directory_counterexample:
  "workingDir (process (endState (initProject (failingFor []) projectA
      \<lparr>process = startedIn ''/home'', instances = [], failures = []\<rparr>))) = ''/ws/a'' \<and>
   workingDir (process (endState (initLoop (failingFor []) [projectA, projectB]
      \<lparr>process = startedIn ''/home'', instances = [], failures = []\<rparr>))) = ''/ws/b'' \<and>
   workingDir (init missingDirB (Init [projectA, projectB, projectC] None) (startedIn ''/home'')) = ''/ws/a'' \<and>
   workingDir (init rejectsNullB (Init [projectA, projectB, projectC] None) (startedIn ''/home'')) = ''/ws/b''"
  by code_simp

text \<open>
  Claim C9, at its failing input: when the registration of the loader throws, the reply
  has type \<^verbatim>\<open>error\<close> and its \<open>errors\<close> field is the flat array of the empty string and
  the stack, not an array of pairs.
\<close>

theorem top_level_failure_reply:
  "outbox (init brokenLoader (Init [projectA] (Some ''./loader.mjs'')) (startedIn ''/home'')) =
     [Reply ''error'' (JArr [JStr [], JStr ''Error: Cannot find module''])] \<and>
   \<not> isPairList (JArr [JStr [], JStr ''Error: Cannot find module'']) \<and>
   isPairList (JArr [JArr [JStr [], JStr ''Error: Cannot find module'']])"
  by code_simp

text \<open>Every top-level failure is reported in that form.\<close>

lemma top_level_failure_flat:
  assumes "listening p" and "initBody rt metas loader' (p\<lparr>listening := False\<rparr>) = Inl (err, st)"
    and "stackString err = Inr s"
  shows "outbox (init rt (Init metas loader') p) =
           outbox (process st) @ [Reply ''error'' (JArr [JStr [], JStr s])] \<and>
         \<not> isPairList (JArr [JStr [], JStr s])"
  using assms by (simp add: init_def error_def send_def isPairList_def)

text \<open>
  A construction that rejects with \<^verbatim>\<open>null\<close> is a top-level failure as well: the read of
  its stack throws in the handler, the loop is left with one context constructed, the
  third descriptor is never tried, and the reply has type \<^verbatim>\<open>error\<close>.
\<close>

lemma rejecting_null_aborts:
  "map fst (constructions (init rejectsNullB (Init [projectA, projectB, projectC] None) (startedIn ''/home'')))
     = [''/ws/a/vitest.config.ts'', ''/ws/b/vitest.config.ts''] \<and>
   outbox (init rejectsNullB (Init [projectA, projectB, projectC] None) (startedIn ''/home''))
     = [Reply ''error'' (JArr [JStr [], JStr ''TypeError: Cannot read properties of null''])]"
  by code_simp

section \<open>Properties of the worker's methods\<close>

text \<open>
  For an id that is not a name every plain object inherits, a call other than \<^verbatim>\<open>close\<close>
  is dispatched as intended: an id that \<^verbatim>\<open>vitestById\<close> does not own fails with
  \<^verbatim>\<open>Vitest instance not found\<close> and the id, a method the context does not have fails with
  \<^verbatim>\<open>Method not found\<close> and its name, a call of a function member is forwarded to it
  with the remaining arguments, and a call of a member that is not a function throws a
  \<^verbatim>\<open>TypeError\<close>.
\<close>

lemma createWorkerMethods_dispatch:
  assumes "prop \<noteq> ''close''" and "proto ident = None"
  shows "(map_of vitestById ident = None \<longrightarrow>
            createWorkerMethods proto vitestById prop ident args =
              Inl (Error (''Vitest instance not found with id: '' @ ident))) \<and>
         (\<forall>v. map_of vitestById ident = Some v \<and> v prop = None \<longrightarrow>
            createWorkerMethods proto vitestById prop ident args =
              Inl (Error (''Method not found: '' @ prop))) \<and>
         (\<forall>v method. map_of vitestById ident = Some v \<and> v prop = Some (Method method) \<longrightarrow>
            createWorkerMethods proto vitestById prop ident args =
              map_sum (\<lambda>e. e) Returned (method args)) \<and>
         (\<forall>v. map_of vitestById ident = Some v \<and> v prop = Some NotFunction \<longrightarrow>
            createWorkerMethods proto vitestById prop ident args = Inl TypeError)"
  using assms by (auto simp: createWorkerMethods_def callMethod_def)

text \<open>
  Claim C5, at its failing input: \<^verbatim>\<open>constructor\<close> is not the id of a context, but the
  read \<^verbatim>\<open>vitestById["constructor"]\<close> finds the inherited function, so the call does not
  fail with \<^verbatim>\<open>Vitest instance not found\<close>; the function has no member
  \<^verbatim>\<open>collectTests\<close>, and the call fails with \<^verbatim>\<open>Method not found\<close>.
\<close>

theorem inherited_id_dispatch:
  "map_of examplePool ''constructor'' = None \<and>
   inherited ''constructor'' \<and>
   createWorkerMethods exampleProto examplePool ''collectTests'' ''constructor'' [''/ws/a.test.ts'']
     = Inl (Error ''Method not found: collectTests'') \<and>
   createWorkerMethods exampleProto examplePool ''collectTests'' ''/ws/other.config.ts'' [''/ws/a.test.ts'']
     = Inl (Error ''Vitest instance not found with id: /ws/other.config.ts'')"
  by (simp add: examplePool_def exampleProto_def exampleContext_def inherited_def
      objectPrototypeKeys_def createWorkerMethods_def callMethod_def)

end
